theory Spec2Isabelle
  imports Complex_Main "HOL-Library.Sublist"
begin

section \<open>SSDP datagrams\<close>

text \<open>
  The codec (\<open>aioupnp.serialization.ssdp.SSDPDatagram\<close>) and the constants module are
  imported by \<open>aioupnp/protocols/ssdp.py\<close>. The protocol reads two attributes of a
  datagram: its packet type and its search target \<open>st\<close>, which may be \<open>None\<close>.
\<close>

datatype packet_kind = M_SEARCH | NOTIFY | OK

record ssdp_datagram =
  packet_type :: packet_kind
  st :: "string option"
  headers :: "(string \<times> string) list"

text \<open>
  Modelled from the spec: the parameter set of a search request (an \<open>OrderedDict\<close> in
  the source) carries a nullable search-target string; the codec's constructor, which is
  not part of \<open>ssdp.py\<close>, copies it into the datagram's \<open>st\<close>.
\<close>

record search_args =
  arg_st :: "string option"
  arg_headers :: "(string \<times> string) list"

definition SSDPDatagram :: "packet_kind \<Rightarrow> search_args \<Rightarrow> ssdp_datagram" where
  "SSDPDatagram kind datagram =
     \<lparr>packet_type = kind, st = arg_st datagram, headers = arg_headers datagram\<rparr>"

text \<open>Modelled from the spec: the well-known SSDP port and multicast group.\<close>

definition SSDP_PORT :: nat where
  "SSDP_PORT = 1900"

definition SSDP_IP_ADDRESS :: string where
  "SSDP_IP_ADDRESS = ''239.255.255.250''"

section \<open>Errors\<close>

datatype error =
    AssertionError
  | CancelledError
  | TimeoutError
  | ZeroDivisionError
  | UPnPError string

section \<open>The protocol object, its futures and its timer handles\<close>

text \<open>
  An \<open>asyncio.Future\<close> is in exactly one of three states. Futures and timer handles are
  objects compared by identity, so the model names them by numbers and keeps their state in
  a store next to the protocol's own attributes. \<open>set_result_calls\<close> records, in order,
  the futures on which \<open>set_result\<close> was invoked; \<open>scheduled\<close> is the event loop's queue of
  timer handles that have not run yet; \<open>sent\<close> records the calls of \<open>transport.sendto\<close>.
\<close>

datatype future_state = PENDING | CANCELLED | FINISHED ssdp_datagram

type_synonym pending_search = "string \<times> string \<times> nat \<times> nat"

record ssdp_protocol =
  multicast_address :: string
  lan_address :: string
  pending_searches :: "pending_search list"
  futures :: "nat \<Rightarrow> future_state"
  set_result_calls :: "nat list"
  next_future :: nat
  handle_cancelled :: "nat \<Rightarrow> bool"
  handle_callback :: "nat \<Rightarrow> nat"
  handle_delay :: "nat \<Rightarrow> rat"
  next_handle :: nat
  scheduled :: "nat list"
  sent :: "(ssdp_datagram \<times> string \<times> nat) list"

definition SSDPProtocol :: "string \<Rightarrow> string \<Rightarrow> ssdp_protocol" where
  "SSDPProtocol mcast lan =
     \<lparr>multicast_address = mcast, lan_address = lan, pending_searches = [],
      futures = (\<lambda>_. PENDING), set_result_calls = [], next_future = 0,
      handle_cancelled = (\<lambda>_. False), handle_callback = (\<lambda>_. 0),
      handle_delay = (\<lambda>_. 0), next_handle = 0, scheduled = [], sent = []\<rparr>"

text \<open>\<open>Handle.cancel()\<close>: marks the handle; a cancelled handle never runs its callback.\<close>

definition handle_cancel :: "nat \<Rightarrow> ssdp_protocol \<Rightarrow> ssdp_protocol" where
  "handle_cancel h self = self\<lparr>handle_cancelled := (handle_cancelled self)(h := True)\<rparr>"

text \<open>\<open>Future.done()\<close>, \<open>Future.set_result\<close> (called by the source only on a future that
  is not done) and \<open>Future.cancel()\<close>, which does nothing on a future that is done.\<close>

definition future_done :: "nat \<Rightarrow> ssdp_protocol \<Rightarrow> bool" where
  "future_done f self = (futures self f \<noteq> PENDING)"

definition set_result :: "nat \<Rightarrow> ssdp_datagram \<Rightarrow> ssdp_protocol \<Rightarrow> ssdp_protocol" where
  "set_result f packet self =
     self\<lparr>futures := (futures self)(f := FINISHED packet),
          set_result_calls := set_result_calls self @ [f]\<rparr>"

definition future_cancel :: "nat \<Rightarrow> ssdp_protocol \<Rightarrow> ssdp_protocol" where
  "future_cancel f self =
     (if future_done f self then self
      else self\<lparr>futures := (futures self)(f := CANCELLED)\<rparr>)"

text \<open>\<open>Future()\<close> and \<open>loop.call_later(timeout, fut.cancel)\<close>.\<close>

definition new_future :: "ssdp_protocol \<Rightarrow> nat \<times> ssdp_protocol" where
  "new_future self =
     (next_future self,
      self\<lparr>futures := (futures self)(next_future self := PENDING),
           next_future := Suc (next_future self)\<rparr>)"

definition call_later :: "rat \<Rightarrow> nat \<Rightarrow> ssdp_protocol \<Rightarrow> nat \<times> ssdp_protocol" where
  "call_later timeout fut self =
     (next_handle self,
      self\<lparr>handle_cancelled := (handle_cancelled self)(next_handle self := False),
           handle_callback := (handle_callback self)(next_handle self := fut),
           handle_delay := (handle_delay self)(next_handle self := timeout),
           next_handle := Suc (next_handle self),
           scheduled := scheduled self @ [next_handle self]\<rparr>)"

section \<open>Matching a reply against the pending searches\<close>

text \<open>The components \<open>t[0]\<close>, \<open>t[1]\<close>, \<open>t[2]\<close>, \<open>t[3]\<close> of a pending search.\<close>

abbreviation search_address :: "pending_search \<Rightarrow> string" where
  "search_address t \<equiv> fst t"

abbreviation search_target :: "pending_search \<Rightarrow> string" where
  "search_target t \<equiv> fst (snd t)"

abbreviation search_future :: "pending_search \<Rightarrow> nat" where
  "search_future t \<equiv> fst (snd (snd t))"

abbreviation search_handle :: "pending_search \<Rightarrow> nat" where
  "search_handle t \<equiv> snd (snd (snd t))"

text \<open>The test \<open>(address == a) and (s in [packet.st, "upnp:rootdevice"])\<close> of the source.\<close>

definition search_matches :: "string \<Rightarrow> ssdp_datagram \<Rightarrow> pending_search \<Rightarrow> bool" where
  "search_matches address packet t =
     (address = search_address t \<and>
      Some (search_target t) \<in> set [st packet, Some ''upnp:rootdevice''])"

text \<open>
  \<open>SSDPProtocol._callback_m_search_ok\<close>. The first loop pops the pending searches from the
  end of the list; the second loop pops \<open>tmp\<close> from its end and appends to the list.
\<close>

function drain_pending ::
  "string \<Rightarrow> ssdp_datagram \<Rightarrow> pending_search list \<Rightarrow> nat list \<Rightarrow> ssdp_protocol
     \<Rightarrow> pending_search list \<times> nat list \<times> ssdp_protocol" where
  "drain_pending address packet tmp set_futures self =
     (if pending_searches self = [] then (tmp, set_futures, self)
      else
        let t = last (pending_searches self);
            self = self\<lparr>pending_searches := butlast (pending_searches self)\<rparr>;
            a = search_address t; s = search_target t
        in if address = a \<and> Some s \<in> set [st packet, Some ''upnp:rootdevice'']
           then
             let f = search_future t; h = search_handle t;
                 self = handle_cancel h self
             in if f \<notin> set set_futures
                then drain_pending address packet tmp (set_futures @ [f])
                       (if \<not> future_done f self then set_result f packet self else self)
                else drain_pending address packet tmp set_futures self
           else if search_future t \<notin> set set_futures
                then drain_pending address packet (tmp @ [t]) set_futures self
                else drain_pending address packet tmp set_futures self)"
  by pat_completeness auto
termination
  by (relation "measure (\<lambda>(address, packet, tmp, set_futures, self).
                  length (pending_searches self))")
     (auto simp: handle_cancel_def set_result_def)

function restore_pending :: "pending_search list \<Rightarrow> ssdp_protocol \<Rightarrow> ssdp_protocol" where
  "restore_pending tmp self =
     (if tmp = [] then self
      else restore_pending (butlast tmp)
             (self\<lparr>pending_searches := pending_searches self @ [last tmp]\<rparr>))"
  by pat_completeness auto
termination
  by (relation "measure (\<lambda>(tmp, self). length tmp)") auto

definition callback_m_search_ok ::
  "string \<Rightarrow> ssdp_datagram \<Rightarrow> ssdp_protocol \<Rightarrow> ssdp_protocol" where
  "callback_m_search_ok address packet self =
     (case drain_pending address packet [] [] self of
        (tmp, set_futures, self') \<Rightarrow> restore_pending tmp self')"

section \<open>Sending requests and registering pending searches\<close>

text \<open>\<open>SSDPProtocol.send_many_m_searches\<close>: one \<open>sendto\<close> per packet, to the SSDP port.\<close>

fun send_many_m_searches ::
  "string \<Rightarrow> ssdp_datagram list \<Rightarrow> ssdp_protocol \<Rightarrow> ssdp_protocol" where
  "send_many_m_searches address [] self = self"
| "send_many_m_searches address (packet # packets) self =
     send_many_m_searches address packets
       (self\<lparr>sent := sent self @ [(packet, address, SSDP_PORT)]\<rparr>)"

text \<open>
  The \<open>for\<close> loop of \<open>SSDPProtocol.m_search\<close>. The assertion raises inside the loop, after
  the earlier parameter sets have been registered and before anything is sent.
\<close>

fun register_searches ::
  "string \<Rightarrow> rat \<Rightarrow> nat \<Rightarrow> search_args list \<Rightarrow> ssdp_datagram list \<Rightarrow> ssdp_protocol
     \<Rightarrow> (error + ssdp_datagram list) \<times> ssdp_protocol" where
  "register_searches address timeout fut [] packets self = (Inr packets, self)"
| "register_searches address timeout fut (datagram # datagrams) packets self =
     (let packet = SSDPDatagram M_SEARCH datagram in
      case st packet of
        None \<Rightarrow> (Inl AssertionError, self)
      | Some s \<Rightarrow>
          (case call_later timeout fut self of
             (h, self') \<Rightarrow>
               register_searches address timeout fut datagrams (packets @ [packet])
                 (self'\<lparr>pending_searches := pending_searches self' @ [(address, s, fut, h)]\<rparr>)))"

section \<open>Inbound datagrams and timers\<close>

text \<open>
  Modelled from the spec: the codec's \<open>decode\<close> either yields a typed datagram or fails
  with a decode error. Received bytes are represented by what they decode to, \<open>None\<close> for
  bytes the codec rejects.
\<close>

type_synonym wire_data = "ssdp_datagram option"

definition decode :: "wire_data \<Rightarrow> error + ssdp_datagram" where
  "decode data = (case data of None \<Rightarrow> Inl (UPnPError ''decode'') | Some packet \<Rightarrow> Inr packet)"

text \<open>\<open>SSDPProtocol.datagram_received\<close>.\<close>

definition datagram_received ::
  "wire_data \<Rightarrow> string \<times> nat \<Rightarrow> ssdp_protocol \<Rightarrow> ssdp_protocol" where
  "datagram_received data addr self =
     (if fst addr = lan_address self then self
      else case decode data of
             Inl err \<Rightarrow> self
           | Inr packet \<Rightarrow>
               if packet_type packet = OK then callback_m_search_ok (fst addr) packet self
               else self)"

text \<open>
  The event loop running a timer handle created by \<open>call_later(timeout, fut.cancel)\<close>: a
  cancelled handle is skipped, otherwise its callback \<open>fut.cancel\<close> runs.
\<close>

definition fire_handle :: "nat \<Rightarrow> ssdp_protocol \<Rightarrow> ssdp_protocol" where
  "fire_handle h self =
     (if handle_cancelled self h then self else future_cancel (handle_callback self h) self)"

datatype event = DatagramReceived wire_data "string \<times> nat" | TimerFired nat

fun step :: "ssdp_protocol \<Rightarrow> event \<Rightarrow> ssdp_protocol" where
  "step self (DatagramReceived data addr) = datagram_received data addr self"
| "step self (TimerFired h) = fire_handle h self"

definition run_events :: "event list \<Rightarrow> ssdp_protocol \<Rightarrow> ssdp_protocol" where
  "run_events es self = foldl step self es"

section \<open>The engine's search\<close>

text \<open>
  \<open>await fut\<close> suspends the caller while the event loop runs. The datagrams that arrive
  before the timers are due are delivered in order, then every timer handle still in the
  queue runs. A finished future yields its result, a cancelled one raises
  \<open>CancelledError\<close>, and a future that is still pending never wakes the caller (\<open>None\<close>).
\<close>

definition run_timers :: "ssdp_protocol \<Rightarrow> ssdp_protocol" where
  "run_timers self = foldl (\<lambda>s h. fire_handle h s) (self\<lparr>scheduled := []\<rparr>) (scheduled self)"

definition await_future ::
  "(wire_data \<times> string \<times> nat) list \<Rightarrow> nat \<Rightarrow> ssdp_protocol
     \<Rightarrow> (error + ssdp_datagram) option \<times> ssdp_protocol" where
  "await_future inbound fut self =
     (let self1 = foldl (\<lambda>s (data, addr). datagram_received data addr s) self inbound;
          self2 = run_timers self1
      in case futures self2 fut of
           FINISHED packet \<Rightarrow> (Some (Inr packet), self2)
         | CANCELLED \<Rightarrow> (Some (Inl CancelledError), self2)
         | PENDING \<Rightarrow> (None, self2))"

text \<open>
  \<open>SSDPProtocol.m_search\<close>, in two parts: everything up to the suspension point
  (\<open>start_m_search\<close>, which yields the future the caller is about to await), and the
  whole call.
\<close>

definition start_m_search ::
  "string \<Rightarrow> rat \<Rightarrow> search_args list \<Rightarrow> ssdp_protocol \<Rightarrow> (error + nat) \<times> ssdp_protocol" where
  "start_m_search address timeout datagrams self =
     (case new_future self of
        (fut, self0) \<Rightarrow>
          (case register_searches address timeout fut datagrams [] self0 of
             (Inl e, self1) \<Rightarrow> (Inl e, self1)
           | (Inr packets, self1) \<Rightarrow>
               (Inr fut, send_many_m_searches address packets self1)))"

definition SSDPProtocol_m_search ::
  "(wire_data \<times> string \<times> nat) list \<Rightarrow> string \<Rightarrow> rat \<Rightarrow> search_args list \<Rightarrow> ssdp_protocol
     \<Rightarrow> (error + ssdp_datagram) option \<times> ssdp_protocol" where
  "SSDPProtocol_m_search inbound address timeout datagrams self =
     (case start_m_search address timeout datagrams self of
        (Inl e, self1) \<Rightarrow> (Some (Inl e), self1)
      | (Inr fut, self1) \<Rightarrow> await_future inbound fut self1)"

section \<open>Transports and the public operations\<close>

text \<open>
  What the operations do to the outside is recorded in a \<open>world\<close>: how many transports
  were created, on which transports \<open>close()\<close> was called (in call order), and each call of
  the engine's search with its transport, address, timeout and parameter sets. What the
  outside does is an \<open>env\<close>: whether the \<open>n\<close>-th transport setup succeeds, and which
  datagrams arrive while the \<open>n\<close>-th engine search is suspended.
\<close>

datatype setup_outcome = SetupOk | EndpointError string | JoinError string

record env =
  setup_result :: "nat \<Rightarrow> setup_outcome"
  arrivals :: "nat \<Rightarrow> (wire_data \<times> string \<times> nat) list"

record world =
  listen_calls :: nat
  transports :: nat
  close_calls :: "nat list"
  searches :: "(nat \<times> string \<times> rat \<times> search_args list) list"

definition transport_close :: "nat \<Rightarrow> world \<Rightarrow> world" where
  "transport_close transport w = w\<lparr>close_calls := close_calls w @ [transport]\<rparr>"

text \<open>
  \<open>listen_ssdp\<close>: a failure to create the socket or the endpoint raises before a transport
  exists; a failure to join the group or to set the TTL closes the transport and raises.
\<close>

definition listen_ssdp ::
  "env \<Rightarrow> string \<Rightarrow> string \<Rightarrow> nat option \<Rightarrow> world
     \<Rightarrow> (error + nat \<times> ssdp_protocol \<times> string \<times> string) \<times> world" where
  "listen_ssdp env lan_addr gateway_address ssdp_socket w =
     (let n = listen_calls w; w0 = w\<lparr>listen_calls := Suc n\<rparr> in
      case setup_result env n of
        EndpointError err \<Rightarrow> (Inl (UPnPError err), w0)
      | JoinError err \<Rightarrow>
          (let transport = transports w0; w1 = w0\<lparr>transports := Suc transport\<rparr>
           in (Inl (UPnPError err), transport_close transport w1))
      | SetupOk \<Rightarrow>
          (let transport = transports w0; w1 = w0\<lparr>transports := Suc transport\<rparr>
           in (Inr (transport, SSDPProtocol SSDP_IP_ADDRESS lan_addr,
                    gateway_address, lan_addr), w1)))"

text \<open>A call \<open>await protocol.m_search(...)\<close> made by an operation on its transport.\<close>

definition await_m_search ::
  "env \<Rightarrow> nat \<Rightarrow> ssdp_protocol \<Rightarrow> string \<Rightarrow> rat \<Rightarrow> search_args list \<Rightarrow> world
     \<Rightarrow> (error + ssdp_datagram) option \<times> ssdp_protocol \<times> world" where
  "await_m_search env transport protocol address timeout datagrams w =
     (case SSDPProtocol_m_search (arrivals env (length (searches w)))
             address timeout datagrams protocol of
        (r, protocol') \<Rightarrow>
          (r, protocol', w\<lparr>searches := searches w @ [(transport, address, timeout, datagrams)]\<rparr>))"

text \<open>Decimal digits of a number, for \<open>"{}:{}".format(gateway_address, SSDP_PORT)\<close>.\<close>

fun str_nat :: "nat \<Rightarrow> string" where
  "str_nat n =
     (if n < 10 then [char_of (48 + n)]
      else str_nat (n div 10) @ [char_of (48 + n mod 10)])"

definition timed_out_message :: "string \<Rightarrow> string" where
  "timed_out_message gateway_address =
     ''M-SEARCH for '' @ gateway_address @ '':'' @ str_nat SSDP_PORT @ '' timed out''"

text \<open>The module-level \<open>m_search\<close>, with its \<open>try\<close> / \<open>except\<close> / \<open>finally\<close>.\<close>

definition m_search ::
  "env \<Rightarrow> string \<Rightarrow> string \<Rightarrow> search_args \<Rightarrow> rat \<Rightarrow> nat option \<Rightarrow> world
     \<Rightarrow> (error + ssdp_datagram) option \<times> world" where
  "m_search env lan_addr gateway_address datagram_args timeout ssdp_socket w =
     (case listen_ssdp env lan_addr gateway_address ssdp_socket w of
        (Inl e, w0) \<Rightarrow> (Some (Inl e), w0)
      | (Inr (transport, protocol, gateway_address', lan_addr'), w0) \<Rightarrow>
          (case await_m_search env transport protocol gateway_address' timeout
                  [datagram_args] w0 of
             (None, protocol', w1) \<Rightarrow> (None, w1)
           | (Some (Inr packet), protocol', w1) \<Rightarrow>
               (Some (Inr packet), transport_close transport w1)
           | (Some (Inl e), protocol', w1) \<Rightarrow>
               (if e = TimeoutError \<or> e = CancelledError
                then (Some (Inl (UPnPError (timed_out_message gateway_address'))),
                      transport_close transport w1)
                else (Some (Inl e), transport_close transport w1))))"

text \<open>
  The \<open>while packet_args\<close> loop of \<open>_fuzzy_m_search\<close> with the \<open>raise\<close> that follows it.
  The batch size is the source's constant 2.
\<close>

function fuzzy_batches ::
  "env \<Rightarrow> nat \<Rightarrow> string \<Rightarrow> rat \<Rightarrow> search_args list \<Rightarrow> ssdp_protocol \<Rightarrow> world
     \<Rightarrow> (error + search_args list) option \<times> ssdp_protocol \<times> world" where
  "fuzzy_batches env transport gateway_address batch_timeout packet_args protocol w =
     (if packet_args = []
      then (Some (Inl (UPnPError (timed_out_message gateway_address))), protocol, w)
      else
        let args = take 2 packet_args; packet_args' = drop 2 packet_args in
        case await_m_search env transport protocol gateway_address batch_timeout args w of
          (None, protocol', w') \<Rightarrow> (None, protocol', w')
        | (Some (Inr packet), protocol', w') \<Rightarrow> (Some (Inr args), protocol', w')
        | (Some (Inl e), protocol', w') \<Rightarrow>
            (if e = TimeoutError \<or> e = CancelledError
             then fuzzy_batches env transport gateway_address batch_timeout packet_args'
                    protocol' w'
             else (Some (Inl e), protocol', w')))"
  by pat_completeness auto
termination
  by (relation "measure (\<lambda>(env, transport, gateway_address, batch_timeout, packet_args,
                  protocol, w). length packet_args)") auto

text \<open>
  \<open>_fuzzy_m_search\<close>. The candidate parameter sets come from the pattern generator, which is
  not part of \<open>ssdp.py\<close> and is a parameter here. Dividing by the number of candidates
  raises \<open>ZeroDivisionError\<close> when there is none. The function has no \<open>finally\<close> and no call
  of \<open>transport.close()\<close>.
\<close>

definition fuzzy_m_search_batches ::
  "env \<Rightarrow> search_args list \<Rightarrow> string \<Rightarrow> string \<Rightarrow> int \<Rightarrow> nat option \<Rightarrow> world
     \<Rightarrow> (error + search_args list) option \<times> world" where
  "fuzzy_m_search_batches env packet_generator lan_addr gateway_address timeout ssdp_socket w =
     (case listen_ssdp env lan_addr gateway_address ssdp_socket w of
        (Inl e, w0) \<Rightarrow> (Some (Inl e), w0)
      | (Inr (transport, protocol, gateway_address', lan_addr'), w0) \<Rightarrow>
          (let packet_args = packet_generator in
           if length packet_args = 0 then (Some (Inl ZeroDivisionError), w0)
           else
             let batch_timeout = of_int timeout / of_nat (length packet_args) in
             case fuzzy_batches env transport gateway_address' batch_timeout packet_args
                    protocol w0 of
               (r, protocol', w1) \<Rightarrow> (r, w1)))"

text \<open>The \<open>for args in args_to_try\<close> loop of \<open>fuzzy_m_search\<close> with the final \<open>raise\<close>.\<close>

fun try_args ::
  "env \<Rightarrow> string \<Rightarrow> string \<Rightarrow> search_args list \<Rightarrow> world
     \<Rightarrow> (error + search_args \<times> ssdp_datagram) option \<times> world" where
  "try_args env lan_addr gateway_address [] w =
     (Some (Inl (UPnPError ''failed to discover gateway'')), w)"
| "try_args env lan_addr gateway_address (args # rest) w =
     (case m_search env lan_addr gateway_address args 3 None w of
        (None, w') \<Rightarrow> (None, w')
      | (Some (Inr packet), w') \<Rightarrow> (Some (Inr (args, packet)), w')
      | (Some (Inl (UPnPError msg)), w') \<Rightarrow> try_args env lan_addr gateway_address rest w'
      | (Some (Inl e), w') \<Rightarrow> (Some (Inl e), w'))"

text \<open>\<open>fuzzy_m_search\<close>.\<close>

definition fuzzy_m_search ::
  "env \<Rightarrow> search_args list \<Rightarrow> string \<Rightarrow> string \<Rightarrow> int \<Rightarrow> nat option \<Rightarrow> world
     \<Rightarrow> (error + search_args \<times> ssdp_datagram) option \<times> world" where
  "fuzzy_m_search env packet_generator lan_addr gateway_address timeout ssdp_socket w =
     (case fuzzy_m_search_batches env packet_generator lan_addr gateway_address timeout
             ssdp_socket w of
        (None, w0) \<Rightarrow> (None, w0)
      | (Some (Inl e), w0) \<Rightarrow> (Some (Inl e), w0)
      | (Some (Inr args_to_try), w0) \<Rightarrow> try_args env lan_addr gateway_address args_to_try w0)"

section \<open>Example values\<close>

text \<open>A gateway, a local address, parameter sets and replies used in the examples below.\<close>

definition gateway :: string where
  "gateway = ''192.168.1.1''"

definition lan :: string where
  "lan = ''192.168.1.2''"

definition args_for :: "string \<Rightarrow> search_args" where
  "args_for target = \<lparr>arg_st = Some target, arg_headers = []\<rparr>"

definition null_args :: search_args where
  "null_args = \<lparr>arg_st = None, arg_headers = []\<rparr>"

definition ok_reply :: "string \<Rightarrow> ssdp_datagram" where
  "ok_reply target = \<lparr>packet_type = OK, st = Some target, headers = []\<rparr>"

text \<open>A protocol with one search for \<open>urn:a\<close> suspended.\<close>

definition one_search :: ssdp_protocol where
  "one_search = snd (start_m_search gateway 1 [args_for ''urn:a''] (SSDPProtocol SSDP_IP_ADDRESS lan))"

text \<open>A protocol with two independent searches suspended, for \<open>urn:a\<close> and for the
  root device.\<close>

definition two_searches :: ssdp_protocol where
  "two_searches = snd (start_m_search gateway 1 [args_for ''upnp:rootdevice''] one_search)"

text \<open>A protocol with two independent searches suspended, for \<open>urn:a\<close> and for
  \<open>urn:b\<close>.\<close>

definition two_exact_searches :: ssdp_protocol where
  "two_exact_searches = snd (start_m_search gateway 1 [args_for ''urn:b''] one_search)"

text \<open>A protocol with one search of two parameter sets suspended: two records, one future.\<close>

definition batch_search :: ssdp_protocol where
  "batch_search =
     snd (start_m_search gateway 1 [args_for ''urn:a'', args_for ''urn:b'']
            (SSDPProtocol SSDP_IP_ADDRESS lan))"

text \<open>The same after its timers have run: the future is cancelled, the records remain.\<close>

definition stale_batch :: ssdp_protocol where
  "stale_batch = run_timers batch_search"

text \<open>The outside world before any operation, and three environments: one where nothing
  ever arrives, one where the gateway answers every search with a reply for one target, and
  one where it does so except during the second search.\<close>

definition world0 :: world where
  "world0 = \<lparr>listen_calls = 0, transports = 0, close_calls = [], searches = []\<rparr>"

definition silent_env :: env where
  "silent_env = \<lparr>setup_result = (\<lambda>_. SetupOk), arrivals = (\<lambda>_. [])\<rparr>"

definition answering_env :: "string \<Rightarrow> env" where
  "answering_env target =
     \<lparr>setup_result = (\<lambda>_. SetupOk),
      arrivals = (\<lambda>_. [(Some (ok_reply target), gateway, SSDP_PORT)])\<rparr>"

definition flaky_env :: "string \<Rightarrow> env" where
  "flaky_env target =
     \<lparr>setup_result = (\<lambda>_. SetupOk),
      arrivals = (\<lambda>n. if n = 1 then [] else [(Some (ok_reply target), gateway, SSDP_PORT)])\<rparr>"


section \<open>The matching pass: what the two loops compute\<close>

declare drain_pending.simps [simp del] restore_pending.simps [simp del]

lemma drain_nil:
  "pending_searches self = [] \<Longrightarrow> drain_pending address packet tmp sf self = (tmp, sf, self)"
  by (subst drain_pending.simps) simp

lemma drain_snoc:
  assumes "pending_searches self = ps @ [t]"
  shows "drain_pending address packet tmp sf self =
     (if search_matches address packet t then
        (if search_future t \<notin> set sf
         then drain_pending address packet tmp (sf @ [search_future t])
                (if \<not> future_done (search_future t)
                        (handle_cancel (search_handle t) (self\<lparr>pending_searches := ps\<rparr>))
                 then set_result (search_future t) packet
                        (handle_cancel (search_handle t) (self\<lparr>pending_searches := ps\<rparr>))
                 else handle_cancel (search_handle t) (self\<lparr>pending_searches := ps\<rparr>))
         else drain_pending address packet tmp sf
                (handle_cancel (search_handle t) (self\<lparr>pending_searches := ps\<rparr>)))
      else if search_future t \<notin> set sf
           then drain_pending address packet (tmp @ [t]) sf (self\<lparr>pending_searches := ps\<rparr>)
           else drain_pending address packet tmp sf (self\<lparr>pending_searches := ps\<rparr>))"
  by (subst drain_pending.simps) (auto simp add: assms Let_def search_matches_def)

lemma drain_step_states:
  "pending_searches (self\<lparr>pending_searches := ps\<rparr>) = ps"
  "pending_searches (handle_cancel h (self\<lparr>pending_searches := ps\<rparr>)) = ps"
  "pending_searches (set_result f packet (handle_cancel h (self\<lparr>pending_searches := ps\<rparr>))) = ps"
  "futures (self\<lparr>pending_searches := ps\<rparr>) = futures self"
  "futures (handle_cancel h (self\<lparr>pending_searches := ps\<rparr>)) = futures self"
  "futures (set_result f packet (handle_cancel h (self\<lparr>pending_searches := ps\<rparr>))) =
     (futures self)(f := FINISHED packet)"
  "set_result_calls (self\<lparr>pending_searches := ps\<rparr>) = set_result_calls self"
  "set_result_calls (handle_cancel h (self\<lparr>pending_searches := ps\<rparr>)) = set_result_calls self"
  "set_result_calls (set_result f packet (handle_cancel h (self\<lparr>pending_searches := ps\<rparr>))) =
     set_result_calls self @ [f]"
  by (simp_all add: handle_cancel_def set_result_def)

lemma drain_cases:
  assumes "pending_searches self = ps @ [t]"
  obtains
    (resolve) "search_matches address packet t" "search_future t \<notin> set sf"
      "futures self (search_future t) = PENDING"
      "drain_pending address packet tmp sf self =
         drain_pending address packet tmp (sf @ [search_future t])
           (set_result (search_future t) packet
              (handle_cancel (search_handle t) (self\<lparr>pending_searches := ps\<rparr>)))"
  | (settled) "search_matches address packet t" "search_future t \<notin> set sf"
      "futures self (search_future t) \<noteq> PENDING"
      "drain_pending address packet tmp sf self =
         drain_pending address packet tmp (sf @ [search_future t])
           (handle_cancel (search_handle t) (self\<lparr>pending_searches := ps\<rparr>))"
  | (seen) "search_matches address packet t" "search_future t \<in> set sf"
      "drain_pending address packet tmp sf self =
         drain_pending address packet tmp sf
           (handle_cancel (search_handle t) (self\<lparr>pending_searches := ps\<rparr>))"
  | (keep) "\<not> search_matches address packet t" "search_future t \<notin> set sf"
      "drain_pending address packet tmp sf self =
         drain_pending address packet (tmp @ [t]) sf (self\<lparr>pending_searches := ps\<rparr>)"
  | (drop) "\<not> search_matches address packet t" "search_future t \<in> set sf"
      "drain_pending address packet tmp sf self =
         drain_pending address packet tmp sf (self\<lparr>pending_searches := ps\<rparr>)"
proof (cases "search_matches address packet t")
  case m: True
  show ?thesis
  proof (cases "search_future t \<in> set sf")
    case True
    with m show ?thesis by (intro seen) (simp_all add: drain_snoc[OF assms])
  next
    case nin: False
    show ?thesis
    proof (cases "futures self (search_future t) = PENDING")
      case True
      with m nin show ?thesis
        by (intro resolve) (simp_all add: drain_snoc[OF assms] future_done_def drain_step_states)
    next
      case False
      with m nin show ?thesis
        by (intro settled) (simp_all add: drain_snoc[OF assms] future_done_def drain_step_states)
    qed
  qed
next
  case m: False
  show ?thesis
  proof (cases "search_future t \<in> set sf")
    case True
    with m show ?thesis by (intro drop) (simp_all add: drain_snoc[OF assms])
  next
    case False
    with m show ?thesis by (intro keep) (simp_all add: drain_snoc[OF assms])
  qed
qed

lemma drain_pending_empties:
  "pending_searches self = ps \<Longrightarrow>
   pending_searches (snd (snd (drain_pending address packet tmp sf self))) = []"
proof (induction ps arbitrary: tmp sf self rule: rev_induct)
  case Nil
  then show ?case by (simp add: drain_nil)
next
  case (snoc t ps)
  show ?case
    by (simp add: drain_snoc[OF snoc.prems] snoc.IH handle_cancel_def set_result_def)
qed

lemma drain_set_futures:
  "pending_searches self = ps \<Longrightarrow>
   set (fst (snd (drain_pending address packet tmp sf self))) =
     set sf \<union> search_future ` {t \<in> set ps. search_matches address packet t}"
proof (induction ps arbitrary: tmp sf self rule: rev_induct)
  case Nil
  then show ?case by (simp add: drain_nil)
next
  case (snoc t ps)
  show ?case
    by (auto simp add: drain_snoc[OF snoc.prems] snoc.IH handle_cancel_def set_result_def)
qed

lemma drain_tmp_filter:
  assumes "pending_searches self = ps"
    and "\<And>t. Q t \<Longrightarrow> \<not> search_matches address packet t \<and>
            search_future t \<notin> set sf \<union> search_future ` {t \<in> set ps. search_matches address packet t}"
  shows "filter Q (fst (drain_pending address packet tmp sf self)) = filter Q tmp @ filter Q (rev ps)"
  using assms
proof (induction ps arbitrary: tmp sf self rule: rev_induct)
  case Nil
  then show ?case by (simp add: drain_nil)
next
  case (snoc t ps)
  have Q: "Q u \<Longrightarrow> \<not> search_matches address packet u \<and> search_future u \<notin> set sf
       \<and> search_future u \<noteq> search_future t
       \<and> search_future u \<notin> search_future ` {t \<in> set ps. search_matches address packet t}"
    if "search_matches address packet t" for u
    using snoc.prems(2)[of u] that by auto
  have Q': "Q u \<Longrightarrow> \<not> search_matches address packet u \<and> search_future u \<notin> set sf
       \<and> search_future u \<notin> search_future ` {t \<in> set ps. search_matches address packet t}" for u
    using snoc.prems(2)[of u] by auto
  show ?case
  proof (cases "search_matches address packet t")
    case True
    then have nQ: "\<not> Q t" using snoc.prems(2)[of t] by auto
    show ?thesis using True nQ Q[OF True]
      by (simp add: drain_snoc[OF snoc.prems(1)] snoc.IH handle_cancel_def set_result_def)
  next
    case False
    show ?thesis
    proof (cases "search_future t \<in> set sf")
      case True
      then have nQ: "\<not> Q t" using snoc.prems(2)[of t] by auto
      show ?thesis using False True nQ Q'
        by (simp add: drain_snoc[OF snoc.prems(1)] snoc.IH)
    next
      case nin: False
      show ?thesis using False nin Q'
        by (simp add: drain_snoc[OF snoc.prems(1)] snoc.IH)
    qed
  qed
qed

lemma drain_tmp_subseq:
  "pending_searches self = ps \<Longrightarrow>
   \<exists>K. fst (drain_pending address packet tmp sf self) = tmp @ K \<and> subseq (rev K) ps
       \<and> (\<forall>t \<in> set K. \<not> search_matches address packet t)"
proof (induction ps arbitrary: tmp sf self rule: rev_induct)
  case Nil
  then show ?case by (simp add: drain_nil)
next
  case (snoc t ps)
  have weaken: "\<exists>K. R = tmp @ K \<and> subseq (rev K) (ps @ [t])
          \<and> (\<forall>t \<in> set K. \<not> search_matches address packet t)"
    if "\<exists>K. R = tmp @ K \<and> subseq (rev K) ps
          \<and> (\<forall>t \<in> set K. \<not> search_matches address packet t)" for R
    using that by (auto intro: subseq_rev_drop_many)
  from snoc.prems show ?case
  proof (cases rule: drain_cases[where address = address and packet = packet and tmp = tmp and sf = sf])
    case resolve
    show ?thesis unfolding resolve(4)
      by (rule weaken, rule snoc.IH) (simp add: drain_step_states)
  next
    case settled
    show ?thesis unfolding settled(4)
      by (rule weaken, rule snoc.IH) (simp add: drain_step_states)
  next
    case seen
    show ?thesis unfolding seen(3)
      by (rule weaken, rule snoc.IH) (simp add: drain_step_states)
  next
    case drop
    show ?thesis unfolding drop(3)
      by (rule weaken, rule snoc.IH) (simp add: drain_step_states)
  next
    case keep
    from snoc.IH[where self = "self\<lparr>pending_searches := ps\<rparr>" and tmp = "tmp @ [t]" and sf = sf]
    obtain K where
      K: "fst (drain_pending address packet (tmp @ [t]) sf (self\<lparr>pending_searches := ps\<rparr>))
            = (tmp @ [t]) @ K"
        "subseq (rev K) ps" "\<forall>t \<in> set K. \<not> search_matches address packet t"
      by auto
    have "subseq (rev K @ [t]) (ps @ [t])"
      using K(2) by (intro list_emb_append_mono) auto
    then show ?thesis unfolding keep(3) using K(1,3) keep(1)
      by (intro exI[of _ "t # K"]) simp
  qed
qed

lemma drain_futures:
  "pending_searches self = ps \<Longrightarrow>
   futures (snd (snd (drain_pending address packet tmp sf self))) f =
     (if futures self f = PENDING \<and> f \<notin> set sf \<and>
         (\<exists>t \<in> set ps. search_matches address packet t \<and> search_future t = f)
      then FINISHED packet else futures self f)"
proof (induction ps arbitrary: tmp sf self f rule: rev_induct)
  case Nil
  then show ?case by (simp add: drain_nil)
next
  case (snoc t ps)
  have ex: "(\<exists>u \<in> set (ps @ [t]). search_matches address packet u \<and> search_future u = f) \<longleftrightarrow>
        (search_matches address packet t \<and> search_future t = f) \<or>
        (\<exists>u \<in> set ps. search_matches address packet u \<and> search_future u = f)"
    by auto
  from snoc.prems show ?case
  proof (cases rule: drain_cases[where address = address and packet = packet and tmp = tmp and sf = sf])
    case resolve
    show ?thesis
      unfolding resolve(4) ex using resolve(1-3)
      by (cases "f = search_future t") (simp_all add: snoc.IH drain_step_states)
  next
    case settled
    show ?thesis
      unfolding settled(4) ex using settled(1-3)
      by (cases "f = search_future t") (simp_all add: snoc.IH drain_step_states)
  next
    case seen
    show ?thesis
      unfolding seen(3) ex using seen(1-2)
      by (cases "f = search_future t") (simp_all add: snoc.IH drain_step_states)
  next
    case keep
    show ?thesis
      unfolding keep(3) ex using keep(1-2)
      by (simp add: snoc.IH drain_step_states)
  next
    case drop
    show ?thesis
      unfolding drop(3) ex using drop(1-2)
      by (simp add: snoc.IH drain_step_states)
  qed
qed

lemma drain_set_result_calls:
  "pending_searches self = ps \<Longrightarrow>
   count_list (set_result_calls (snd (snd (drain_pending address packet tmp sf self)))) f =
     count_list (set_result_calls self) f +
     (if futures self f = PENDING \<and> f \<notin> set sf \<and>
         (\<exists>t \<in> set ps. search_matches address packet t \<and> search_future t = f)
      then 1 else 0)"
proof (induction ps arbitrary: tmp sf self f rule: rev_induct)
  case Nil
  then show ?case by (simp add: drain_nil)
next
  case (snoc t ps)
  have ex: "(\<exists>u \<in> set (ps @ [t]). search_matches address packet u \<and> search_future u = f) \<longleftrightarrow>
        (search_matches address packet t \<and> search_future t = f) \<or>
        (\<exists>u \<in> set ps. search_matches address packet u \<and> search_future u = f)"
    by auto
  from snoc.prems show ?case
  proof (cases rule: drain_cases[where address = address and packet = packet and tmp = tmp and sf = sf])
    case resolve
    show ?thesis
      unfolding resolve(4) ex using resolve(1-3)
      by (cases "f = search_future t") (simp_all add: snoc.IH drain_step_states)
  next
    case settled
    show ?thesis
      unfolding settled(4) ex using settled(1-3)
      by (cases "f = search_future t") (simp_all add: snoc.IH drain_step_states)
  next
    case seen
    show ?thesis
      unfolding seen(3) ex using seen(1-2)
      by (cases "f = search_future t") (simp_all add: snoc.IH drain_step_states)
  next
    case keep
    show ?thesis
      unfolding keep(3) ex using keep(1-2)
      by (simp add: snoc.IH drain_step_states)
  next
    case drop
    show ?thesis
      unfolding drop(3) ex using drop(1-2)
      by (simp add: snoc.IH drain_step_states)
  qed
qed

lemma drain_handle_cancelled:
  "pending_searches self = ps \<Longrightarrow>
   handle_cancelled (snd (snd (drain_pending address packet tmp sf self))) h =
     (handle_cancelled self h \<or>
      (\<exists>t \<in> set ps. search_matches address packet t \<and> search_handle t = h))"
proof (induction ps arbitrary: tmp sf self rule: rev_induct)
  case Nil
  then show ?case by (simp add: drain_nil)
next
  case (snoc t ps)
  show ?case
    by (auto simp add: drain_snoc[OF snoc.prems] snoc.IH handle_cancel_def set_result_def
          future_done_def)
qed

lemma drain_frame:
  "pending_searches self = ps \<Longrightarrow>
   (let s' = snd (snd (drain_pending address packet tmp sf self)) in
    lan_address s' = lan_address self \<and> multicast_address s' = multicast_address self \<and>
    next_future s' = next_future self \<and> handle_callback s' = handle_callback self \<and>
    handle_delay s' = handle_delay self \<and> next_handle s' = next_handle self \<and>
    scheduled s' = scheduled self \<and> sent s' = sent self)"
proof (induction ps arbitrary: tmp sf self rule: rev_induct)
  case Nil
  then show ?case by (simp add: drain_nil)
next
  case (snoc t ps)
  show ?case
    by (simp add: drain_snoc[OF snoc.prems] snoc.IH[unfolded Let_def] handle_cancel_def
          set_result_def Let_def)
qed

lemma restore_pending_eq:
  "restore_pending tmp self = self\<lparr>pending_searches := pending_searches self @ rev tmp\<rparr>"
proof (induction tmp arbitrary: self rule: rev_induct)
  case Nil
  show ?case by (subst restore_pending.simps) simp
next
  case (snoc x xs)
  show ?case by (subst restore_pending.simps) (simp add: snoc.IH)
qed

text \<open>The pass as a whole.\<close>

lemma callback_eq:
  "callback_m_search_ok address packet self =
     (snd (snd (drain_pending address packet [] [] self)))
       \<lparr>pending_searches := rev (fst (drain_pending address packet [] [] self))\<rparr>"
proof (cases "drain_pending address packet [] [] self")
  case (fields tmp sf s')
  with drain_pending_empties[of self "pending_searches self" address packet "[]" "[]"]
  have "pending_searches s' = []" by simp
  with fields show ?thesis
    by (simp add: callback_m_search_ok_def restore_pending_eq)
qed

lemma callback_futures:
  "futures (callback_m_search_ok address packet self) f =
     (if futures self f = PENDING \<and>
         (\<exists>t \<in> set (pending_searches self). search_matches address packet t \<and> search_future t = f)
      then FINISHED packet else futures self f)"
  by (simp add: callback_eq drain_futures[OF refl])

lemma callback_handle_cancelled:
  "handle_cancelled (callback_m_search_ok address packet self) h =
     (handle_cancelled self h \<or>
      (\<exists>t \<in> set (pending_searches self). search_matches address packet t \<and> search_handle t = h))"
  by (simp add: callback_eq drain_handle_cancelled[OF refl])

lemma callback_set_result_calls:
  "count_list (set_result_calls (callback_m_search_ok address packet self)) f =
     count_list (set_result_calls self) f +
     (if futures self f = PENDING \<and>
         (\<exists>t \<in> set (pending_searches self). search_matches address packet t \<and> search_future t = f)
      then 1 else 0)"
  by (simp add: callback_eq drain_set_result_calls[OF refl])

lemma callback_frame:
  "lan_address (callback_m_search_ok address packet self) = lan_address self"
  "handle_callback (callback_m_search_ok address packet self) = handle_callback self"
  "next_handle (callback_m_search_ok address packet self) = next_handle self"
  "next_future (callback_m_search_ok address packet self) = next_future self"
  "scheduled (callback_m_search_ok address packet self) = scheduled self"
  "sent (callback_m_search_ok address packet self) = sent self"
  using drain_frame[OF refl, where self = self and address = address and packet = packet and tmp = "[]" and sf = "[]"]
  by (simp_all add: callback_eq Let_def)

lemma callback_pending_filter:
  assumes "\<And>t. Q t \<Longrightarrow> \<not> search_matches address packet t \<and>
            search_future t \<notin>
              search_future ` {t \<in> set (pending_searches self). search_matches address packet t}"
  shows "filter Q (pending_searches (callback_m_search_ok address packet self)) =
         filter Q (pending_searches self)"
proof -
  have "filter Q (fst (drain_pending address packet [] [] self)) =
        filter Q [] @ filter Q (rev (pending_searches self))"
    by (rule drain_tmp_filter[OF refl]) (use assms in auto)
  then have "rev (filter Q (fst (drain_pending address packet [] [] self))) =
        filter Q (pending_searches self)"
    by (simp add: rev_filter)
  then show ?thesis by (simp add: callback_eq rev_filter)
qed

lemma callback_pending_subseq:
  "subseq (pending_searches (callback_m_search_ok address packet self)) (pending_searches self)"
  "\<forall>t \<in> set (pending_searches (callback_m_search_ok address packet self)).
      \<not> search_matches address packet t"
proof -
  from drain_tmp_subseq[OF refl, where self = self and address = address and packet = packet
      and tmp = "[]" and sf = "[]"]
  obtain K where
    K: "fst (drain_pending address packet [] [] self) = K" "subseq (rev K) (pending_searches self)"
      "\<forall>t \<in> set K. \<not> search_matches address packet t"
    by auto
  show "subseq (pending_searches (callback_m_search_ok address packet self)) (pending_searches self)"
    using K(2) by (simp add: callback_eq K(1))
  show "\<forall>t \<in> set (pending_searches (callback_m_search_ok address packet self)).
      \<not> search_matches address packet t"
    using K(3) by (simp add: callback_eq K(1))
qed

section \<open>Events never change a future that is done\<close>

lemma fire_handle_futures:
  "futures (fire_handle h self) f =
     (if \<not> handle_cancelled self h \<and> handle_callback self h = f \<and> futures self f = PENDING
      then CANCELLED else futures self f)"
  by (simp add: fire_handle_def future_cancel_def future_done_def)

lemma datagram_received_futures:
  "futures (datagram_received data addr self) f =
     (if fst addr \<noteq> lan_address self \<and> futures self f = PENDING \<and>
         (\<exists>packet. data = Some packet \<and> packet_type packet = OK \<and>
            (\<exists>t \<in> set (pending_searches self).
               search_matches (fst addr) packet t \<and> search_future t = f))
      then FINISHED (the data) else futures self f)"
  by (cases data) (auto simp add: datagram_received_def decode_def callback_futures)

lemma step_keeps_done: "futures self f \<noteq> PENDING \<Longrightarrow> futures (step self e) f = futures self f"
  by (cases e) (simp_all add: fire_handle_futures datagram_received_futures)

lemma run_events_keeps_done:
  "futures self f \<noteq> PENDING \<Longrightarrow> futures (run_events es self) f = futures self f"
proof (induction es arbitrary: self)
  case Nil
  show ?case by (simp add: run_events_def)
next
  case (Cons e es)
  have "futures (step self e) f = futures self f"
    using Cons.prems by (rule step_keeps_done)
  moreover from this Cons.prems have "futures (step self e) f \<noteq> PENDING" by simp
  then have "futures (run_events es (step self e)) f = futures (step self e) f"
    by (rule Cons.IH)
  ultimately show ?case by (simp add: run_events_def)
qed

lemma run_events_Cons: "run_events (e # es) self = run_events es (step self e)"
  by (simp add: run_events_def)

section \<open>Registration\<close>

lemma register_searches_null:
  "\<exists>d \<in> set datagrams. arg_st d = None \<Longrightarrow>
   fst (register_searches address timeout fut datagrams packets self) = Inl AssertionError \<and>
   sent (snd (register_searches address timeout fut datagrams packets self)) = sent self"
proof (induction datagrams arbitrary: packets self)
  case Nil
  then show ?case by simp
next
  case (Cons d ds)
  show ?case
  proof (cases "arg_st d")
    case None
    then show ?thesis by (simp add: SSDPDatagram_def)
  next
    case (Some s)
    with Cons.prems have "\<exists>d \<in> set ds. arg_st d = None" by auto
    from Cons.IH[OF this] Some show ?thesis
      by (simp add: SSDPDatagram_def call_later_def)
  qed
qed

section \<open>The claims about the matching pass\<close>

text \<open>
  Claim C1, as the specification states it: a reply from address A whose search target is
  \<open>upnp:rootdevice\<close> resolves every search still pending for A, whatever the search's own
  target. The source tests \<open>s in [packet.st, "upnp:rootdevice"]\<close> with \<open>s\<close> the target of the
  pending search, so the wildcard is the pending search's target, not the reply's: a search
  for \<open>urn:a\<close> is left pending, with its timer running, by a root-device reply from its
  gateway.
\<close>

theorem rootdevice_reply_leaves_other_target_pending:
  "pending_searches one_search = [(gateway, ''urn:a'', 0, 0)] \<and>
   futures one_search 0 = PENDING \<and>
   st (ok_reply ''upnp:rootdevice'') = Some ''upnp:rootdevice'' \<and>
   pending_searches (callback_m_search_ok gateway (ok_reply ''upnp:rootdevice'') one_search) =
     [(gateway, ''urn:a'', 0, 0)] \<and>
   futures (callback_m_search_ok gateway (ok_reply ''upnp:rootdevice'') one_search) 0 = PENDING \<and>
   \<not> handle_cancelled (callback_m_search_ok gateway (ok_reply ''upnp:rootdevice'') one_search) 0"
  by code_simp

text \<open>
  Claim C1, amended: a reply from address A resolves every search pending for A whose own
  target is \<open>upnp:rootdevice\<close>, whatever the reply's search target, and every search
  pending for A whose target equals the reply's. Resolving a search removes its record,
  cancels its timer handle, and sets its future to the reply unless the future is done.
\<close>

theorem reply_resolves_the_searches_it_matches:
  assumes "t \<in> set (pending_searches self)"
    and "search_address t = address"
    and "search_target t = ''upnp:rootdevice'' \<or> st packet = Some (search_target t)"
  shows "t \<notin> set (pending_searches (callback_m_search_ok address packet self)) \<and>
         handle_cancelled (callback_m_search_ok address packet self) (search_handle t) \<and>
         futures (callback_m_search_ok address packet self) (search_future t) =
           (if futures self (search_future t) = PENDING then FINISHED packet
            else futures self (search_future t))"
proof -
  have m: "search_matches address packet t"
    using assms(2,3) by (auto simp add: search_matches_def)
  have "t \<notin> set (pending_searches (callback_m_search_ok address packet self))"
    using callback_pending_subseq(2)[of address packet self] m by blast
  moreover have "handle_cancelled (callback_m_search_ok address packet self) (search_handle t)"
    using assms(1) m by (auto simp add: callback_handle_cancelled)
  moreover have "futures (callback_m_search_ok address packet self) (search_future t) =
           (if futures self (search_future t) = PENDING then FINISHED packet
            else futures self (search_future t))"
    using assms(1) m by (auto simp add: callback_futures)
  ultimately show ?thesis by blast
qed

theorem reply_resolves_the_searches_it_matches_witness:
  "(gateway, ''upnp:rootdevice'', 1, 1) \<in> set (pending_searches two_searches) \<and>
   search_address (gateway, ''upnp:rootdevice'', 1::nat, 1::nat) = gateway \<and>
   (search_target (gateway, ''upnp:rootdevice'', 1::nat, 1::nat) = ''upnp:rootdevice'' \<or>
    st (ok_reply ''urn:b'') = Some (search_target (gateway, ''upnp:rootdevice'', 1::nat, 1::nat))) \<and>
   futures two_searches 1 = PENDING \<and>
   (gateway, ''upnp:rootdevice'', 1, 1) \<notin>
     set (pending_searches (callback_m_search_ok gateway (ok_reply ''urn:b'') two_searches)) \<and>
   handle_cancelled (callback_m_search_ok gateway (ok_reply ''urn:b'') two_searches) 1 \<and>
   futures (callback_m_search_ok gateway (ok_reply ''urn:b'') two_searches) 1 =
     FINISHED (ok_reply ''urn:b'')"
proof -
  have h1: "(gateway, ''upnp:rootdevice'', 1, 1) \<in> set (pending_searches two_searches)"
    by code_simp
  have h2: "search_address (gateway, ''upnp:rootdevice'', 1::nat, 1::nat) = gateway"
    by simp
  have h3: "search_target (gateway, ''upnp:rootdevice'', 1::nat, 1::nat) = ''upnp:rootdevice'' \<or>
    st (ok_reply ''urn:b'') = Some (search_target (gateway, ''upnp:rootdevice'', 1::nat, 1::nat))"
    by simp
  have p: "futures two_searches 1 = PENDING"
    by code_simp
  from reply_resolves_the_searches_it_matches[OF h1 h2 h3] h1 p show ?thesis
    by simp
qed

text \<open>
  Claim C3, as the specification states it: with searches P1 (target T1) and P2 (target
  T2, different from T1) pending for address A, a reply from A with target T1 resolves P1
  and does not resolve P2. With T2 = \<open>upnp:rootdevice\<close> the source resolves P2 as well:
  the reply for \<open>urn:a\<close> finishes the future of the root-device search, removes its record
  and cancels its timer handle.
\<close>

theorem exact_reply_also_resolves_rootdevice_search:
  "pending_searches two_searches =
     [(gateway, ''urn:a'', 0, 0), (gateway, ''upnp:rootdevice'', 1, 1)] \<and>
   futures two_searches 0 = PENDING \<and> futures two_searches 1 = PENDING \<and>
   ''upnp:rootdevice'' \<noteq> ''urn:a'' \<and>
   futures (callback_m_search_ok gateway (ok_reply ''urn:a'') two_searches) 1 =
     FINISHED (ok_reply ''urn:a'') \<and>
   pending_searches (callback_m_search_ok gateway (ok_reply ''urn:a'') two_searches) = [] \<and>
   handle_cancelled (callback_m_search_ok gateway (ok_reply ''urn:a'') two_searches) 1"
  by code_simp

text \<open>
  Claim C3, amended: with P1 (target T1) and P2 (target T2) pending for address A, where
  T2 differs from T1 and from \<open>upnp:rootdevice\<close>, P2's future is not the future of any
  record the reply matches, and every record has its own timer handle, a reply from A
  with target T1 resolves P1 (record removed, handle cancelled, future set to the reply
  unless done) and leaves P2 as it was: its record stays, its future and its handle are
  unchanged.
\<close>

theorem exact_reply_resolves_only_its_search:
  assumes "p1 \<in> set (pending_searches self)" and "p2 \<in> set (pending_searches self)"
    and "search_address p1 = address" and "search_address p2 = address"
    and "st packet = Some (search_target p1)"
    and "search_target p2 \<noteq> search_target p1"
    and "search_target p2 \<noteq> ''upnp:rootdevice''"
    and "\<forall>t \<in> set (pending_searches self).
           search_matches address packet t \<longrightarrow> search_future t \<noteq> search_future p2"
    and "distinct (map search_handle (pending_searches self))"
  shows "p1 \<notin> set (pending_searches (callback_m_search_ok address packet self)) \<and>
         handle_cancelled (callback_m_search_ok address packet self) (search_handle p1) \<and>
         futures (callback_m_search_ok address packet self) (search_future p1) =
           (if futures self (search_future p1) = PENDING then FINISHED packet
            else futures self (search_future p1)) \<and>
         p2 \<in> set (pending_searches (callback_m_search_ok address packet self)) \<and>
         futures (callback_m_search_ok address packet self) (search_future p2) =
           futures self (search_future p2) \<and>
         handle_cancelled (callback_m_search_ok address packet self) (search_handle p2) =
           handle_cancelled self (search_handle p2)"
proof -
  let ?after = "callback_m_search_ok address packet self"
  let ?keep = "\<lambda>t. \<not> search_matches address packet t \<and>
     search_future t \<notin>
       search_future ` {t \<in> set (pending_searches self). search_matches address packet t}"
  have m1: "search_matches address packet p1"
    using assms(3,5) by (simp add: search_matches_def)
  have m2: "\<not> search_matches address packet p2"
    using assms(5,6,7) by (auto simp add: search_matches_def)
  have gone: "p1 \<notin> set (pending_searches ?after)"
    using callback_pending_subseq(2)[of address packet self] m1 by blast
  have h1: "handle_cancelled ?after (search_handle p1)"
    using assms(1) m1 by (auto simp add: callback_handle_cancelled)
  have f1: "futures ?after (search_future p1) =
      (if futures self (search_future p1) = PENDING then FINISHED packet
       else futures self (search_future p1))"
    using assms(1) m1 by (auto simp add: callback_futures)
  have k2: "?keep p2" using m2 assms(8) by auto
  have "filter ?keep (pending_searches ?after) = filter ?keep (pending_searches self)"
    by (rule callback_pending_filter) simp
  then have "set (filter ?keep (pending_searches ?after)) =
      set (filter ?keep (pending_searches self))"
    by (rule arg_cong)
  with k2 assms(2) have stays: "p2 \<in> set (pending_searches ?after)"
    by auto
  have f2: "futures ?after (search_future p2) = futures self (search_future p2)"
    using assms(8) by (auto simp add: callback_futures)
  have inj: "inj_on search_handle (set (pending_searches self))"
    using assms(9) by (simp add: distinct_map)
  have "\<not> (\<exists>t \<in> set (pending_searches self).
          search_matches address packet t \<and> search_handle t = search_handle p2)"
  proof
    assume "\<exists>t \<in> set (pending_searches self).
          search_matches address packet t \<and> search_handle t = search_handle p2"
    then obtain t where t: "t \<in> set (pending_searches self)" "search_matches address packet t"
        "search_handle t = search_handle p2"
      by blast
    from inj t(3) t(1) assms(2) have "t = p2" by (rule inj_onD)
    with t(2) m2 show False by simp
  qed
  then have h2: "handle_cancelled ?after (search_handle p2) =
      handle_cancelled self (search_handle p2)"
    unfolding callback_handle_cancelled by blast
  from gone h1 f1 stays f2 h2 show ?thesis by blast
qed


theorem exact_reply_resolves_only_its_search_witness:
  "(gateway, ''urn:a'', 0, 0) \<in> set (pending_searches two_exact_searches) \<and>
   (gateway, ''urn:b'', 1, 1) \<in> set (pending_searches two_exact_searches) \<and>
   st (ok_reply ''urn:a'') = Some ''urn:a'' \<and>
   ''urn:b'' \<noteq> ''urn:a'' \<and> ''urn:b'' \<noteq> ''upnp:rootdevice'' \<and>
   distinct (map search_handle (pending_searches two_exact_searches)) \<and>
   (gateway, ''urn:a'', 0, 0) \<notin>
     set (pending_searches (callback_m_search_ok gateway (ok_reply ''urn:a'') two_exact_searches)) \<and>
   handle_cancelled (callback_m_search_ok gateway (ok_reply ''urn:a'') two_exact_searches) 0 \<and>
   (gateway, ''urn:b'', 1, 1) \<in>
     set (pending_searches (callback_m_search_ok gateway (ok_reply ''urn:a'') two_exact_searches)) \<and>
   futures (callback_m_search_ok gateway (ok_reply ''urn:a'') two_exact_searches) 1 =
     futures two_exact_searches 1 \<and>
   handle_cancelled (callback_m_search_ok gateway (ok_reply ''urn:a'') two_exact_searches) 1 =
     handle_cancelled two_exact_searches 1"
proof -
  let ?p1 = "(gateway, ''urn:a'', 0::nat, 0::nat)"
  let ?p2 = "(gateway, ''urn:b'', 1::nat, 1::nat)"
  have h1: "?p1 \<in> set (pending_searches two_exact_searches)"
    by code_simp
  have h2: "?p2 \<in> set (pending_searches two_exact_searches)"
    by code_simp
  have h3: "search_address ?p1 = gateway" and h4: "search_address ?p2 = gateway"
    by simp_all
  have h5: "st (ok_reply ''urn:a'') = Some (search_target ?p1)"
    by (simp add: ok_reply_def)
  have h6: "search_target ?p2 \<noteq> search_target ?p1"
    and h7: "search_target ?p2 \<noteq> ''upnp:rootdevice''"
    by simp_all
  have h8: "\<forall>t \<in> set (pending_searches two_exact_searches).
      search_matches gateway (ok_reply ''urn:a'') t \<longrightarrow> search_future t \<noteq> search_future ?p2"
    by code_simp
  have h9: "distinct (map search_handle (pending_searches two_exact_searches))"
    by code_simp
  from exact_reply_resolves_only_its_search[OF h1 h2 h3 h4 h5 h6 h7 h8 h9] h1 h2 h5 h9
  show ?thesis by simp
qed

text \<open>
  Claim C4, as the specification states it: when several records share one result slot and a
  matching reply resolves the slot, the pass removes every record referencing the slot,
  matching or not, and cancels the timeout handle of every such record, without resolving
  the slot twice. The source calls \<open>h.cancel()\<close> in the matching branch only: the handle of a
  record that shares the resolved future but does not match the reply is not cancelled.
\<close>

theorem unmatched_record_of_resolved_slot_keeps_its_timer:
  "pending_searches batch_search = [(gateway, ''urn:a'', 0, 0), (gateway, ''urn:b'', 0, 1)] \<and>
   futures batch_search 0 = PENDING \<and>
   futures (callback_m_search_ok gateway (ok_reply ''urn:b'') batch_search) 0 =
     FINISHED (ok_reply ''urn:b'') \<and>
   \<not> handle_cancelled (callback_m_search_ok gateway (ok_reply ''urn:b'') batch_search) 0"
  by code_simp

text \<open>
  Claim C4, amended: when a reply matches a record whose result slot is still pending, the
  pass sets the slot to the reply with exactly one call of \<open>set_result\<close>; of the records
  referencing that slot, every one that matches the reply is removed and has its timeout
  handle cancelled, and every one that does not match keeps its timeout handle as it was
  (each record having its own handle).
\<close>

theorem resolved_slot_set_once_and_matching_records_dropped:
  assumes "t \<in> set (pending_searches self)"
    and "search_matches address packet t"
    and "futures self (search_future t) = PENDING"
    and "distinct (map search_handle (pending_searches self))"
  shows "futures (callback_m_search_ok address packet self) (search_future t) = FINISHED packet \<and>
         count_list (set_result_calls (callback_m_search_ok address packet self)) (search_future t) =
           Suc (count_list (set_result_calls self) (search_future t)) \<and>
         (\<forall>u \<in> set (pending_searches self). search_future u = search_future t \<longrightarrow>
            (if search_matches address packet u
             then u \<notin> set (pending_searches (callback_m_search_ok address packet self)) \<and>
                  handle_cancelled (callback_m_search_ok address packet self) (search_handle u)
             else handle_cancelled (callback_m_search_ok address packet self) (search_handle u) =
                  handle_cancelled self (search_handle u)))"
proof -
  let ?after = "callback_m_search_ok address packet self"
  have f: "futures ?after (search_future t) = FINISHED packet"
    using assms(1-3) by (auto simp add: callback_futures)
  have c: "count_list (set_result_calls ?after) (search_future t) =
      Suc (count_list (set_result_calls self) (search_future t))"
    using assms(1-3) by (auto simp add: callback_set_result_calls)
  have inj: "inj_on search_handle (set (pending_searches self))"
    using assms(4) by (simp add: distinct_map)
  have r: "if search_matches address packet u
        then u \<notin> set (pending_searches ?after) \<and> handle_cancelled ?after (search_handle u)
        else handle_cancelled ?after (search_handle u) = handle_cancelled self (search_handle u)"
    if u: "u \<in> set (pending_searches self)" for u
  proof (cases "search_matches address packet u")
    case True
    have "u \<notin> set (pending_searches ?after)"
      using callback_pending_subseq(2)[of address packet self] True by blast
    moreover have "handle_cancelled ?after (search_handle u)"
      using u True by (auto simp add: callback_handle_cancelled)
    ultimately show ?thesis using True by simp
  next
    case False
    have "\<not> (\<exists>v \<in> set (pending_searches self).
          search_matches address packet v \<and> search_handle v = search_handle u)"
    proof
      assume "\<exists>v \<in> set (pending_searches self).
          search_matches address packet v \<and> search_handle v = search_handle u"
      then obtain v where v: "v \<in> set (pending_searches self)" "search_matches address packet v"
          "search_handle v = search_handle u"
        by blast
      from inj v(3) v(1) u have "v = u" by (rule inj_onD)
      with v(2) False show False by simp
    qed
    then have "handle_cancelled ?after (search_handle u) = handle_cancelled self (search_handle u)"
      unfolding callback_handle_cancelled by blast
    with False show ?thesis by simp
  qed
  from f c r show ?thesis by blast
qed

theorem resolved_slot_set_once_and_matching_records_dropped_witness:
  "(gateway, ''urn:a'', 0, 0) \<in> set (pending_searches batch_search) \<and>
   (gateway, ''urn:b'', 0, 1) \<in> set (pending_searches batch_search) \<and>
   search_matches gateway (ok_reply ''urn:a'') (gateway, ''urn:a'', 0, 0) \<and>
   \<not> search_matches gateway (ok_reply ''urn:a'') (gateway, ''urn:b'', 0, 1) \<and>
   futures batch_search 0 = PENDING \<and>
   distinct (map search_handle (pending_searches batch_search)) \<and>
   futures (callback_m_search_ok gateway (ok_reply ''urn:a'') batch_search) 0 =
     FINISHED (ok_reply ''urn:a'') \<and>
   count_list (set_result_calls (callback_m_search_ok gateway (ok_reply ''urn:a'') batch_search)) 0 =
     Suc (count_list (set_result_calls batch_search) 0) \<and>
   (gateway, ''urn:a'', 0, 0) \<notin>
     set (pending_searches (callback_m_search_ok gateway (ok_reply ''urn:a'') batch_search)) \<and>
   handle_cancelled (callback_m_search_ok gateway (ok_reply ''urn:a'') batch_search) 0 \<and>
   handle_cancelled (callback_m_search_ok gateway (ok_reply ''urn:a'') batch_search) 1 =
     handle_cancelled batch_search 1"
proof -
  have h1: "(gateway, ''urn:a'', 0, 0) \<in> set (pending_searches batch_search)"
    by code_simp
  have h1': "(gateway, ''urn:b'', 0, 1) \<in> set (pending_searches batch_search)"
    by code_simp
  have h2: "search_matches gateway (ok_reply ''urn:a'') (gateway, ''urn:a'', 0, 0)"
    by code_simp
  have h2': "\<not> search_matches gateway (ok_reply ''urn:a'') (gateway, ''urn:b'', 0, 1)"
    by code_simp
  have h3: "futures batch_search (search_future (gateway, ''urn:a'', 0::nat, 0::nat)) = PENDING"
    by code_simp
  have h4: "distinct (map search_handle (pending_searches batch_search))"
    by code_simp
  note r = resolved_slot_set_once_and_matching_records_dropped[OF h1 h2 h3 h4]
  from r have a: "futures (callback_m_search_ok gateway (ok_reply ''urn:a'') batch_search) 0 =
     FINISHED (ok_reply ''urn:a'')"
    by simp
  from r have b: "count_list (set_result_calls
        (callback_m_search_ok gateway (ok_reply ''urn:a'') batch_search)) 0 =
     Suc (count_list (set_result_calls batch_search) 0)"
    by simp
  from r have q: "\<forall>u \<in> set (pending_searches batch_search). search_future u = 0 \<longrightarrow>
      (if search_matches gateway (ok_reply ''urn:a'') u
       then u \<notin> set (pending_searches
                  (callback_m_search_ok gateway (ok_reply ''urn:a'') batch_search)) \<and>
            handle_cancelled (callback_m_search_ok gateway (ok_reply ''urn:a'') batch_search)
              (search_handle u)
       else handle_cancelled (callback_m_search_ok gateway (ok_reply ''urn:a'') batch_search)
              (search_handle u) = handle_cancelled batch_search (search_handle u))"
    by simp
  from q h1 h2 have c: "(gateway, ''urn:a'', 0, 0) \<notin>
     set (pending_searches (callback_m_search_ok gateway (ok_reply ''urn:a'') batch_search)) \<and>
   handle_cancelled (callback_m_search_ok gateway (ok_reply ''urn:a'') batch_search) 0"
    by fastforce
  from q h1' h2' have d: "handle_cancelled
      (callback_m_search_ok gateway (ok_reply ''urn:a'') batch_search) 1 =
     handle_cancelled batch_search 1"
    by fastforce
  from h1 h1' h2 h2' h3 h4 a b c d show ?thesis by simp
qed

text \<open>
  Claim C9, as the specification states it: the pending entries that do not match, and
  whose result slot was not resolved in that pass, are all still in the registry afterwards,
  in their relative order. The source drops a non-matching entry whenever its future is in
  \<open>set_futures\<close>, and a future enters \<open>set_futures\<close> before the test \<open>f.done()\<close>: after the
  timers of a two-set search have cancelled its future, a reply for the second set removes
  the record of the first, which does not match and whose future the pass did not resolve
  (it stays cancelled, and \<open>set_result\<close> is not called).
\<close>

theorem stale_unmatched_record_is_dropped:
  "pending_searches stale_batch = [(gateway, ''urn:a'', 0, 0), (gateway, ''urn:b'', 0, 1)] \<and>
   futures stale_batch 0 = CANCELLED \<and>
   \<not> search_matches gateway (ok_reply ''urn:b'') (gateway, ''urn:a'', 0, 0) \<and>
   futures (callback_m_search_ok gateway (ok_reply ''urn:b'') stale_batch) 0 = CANCELLED \<and>
   set_result_calls (callback_m_search_ok gateway (ok_reply ''urn:b'') stale_batch) = [] \<and>
   pending_searches (callback_m_search_ok gateway (ok_reply ''urn:b'') stale_batch) = []"
  by code_simp

text \<open>
  Claim C9, amended: the pending entries that do not match, and whose result slot is not
  the slot of any entry that matches in that pass, are all still in the registry
  afterwards, in the relative order they had before; and the registry after the pass is a
  subsequence of the registry before it.
\<close>

theorem unmatched_searches_keep_their_order:
  "filter (\<lambda>t. \<not> search_matches address packet t \<and>
               search_future t \<notin> set (map search_future
                 (filter (search_matches address packet) (pending_searches self))))
     (pending_searches (callback_m_search_ok address packet self)) =
   filter (\<lambda>t. \<not> search_matches address packet t \<and>
               search_future t \<notin> set (map search_future
                 (filter (search_matches address packet) (pending_searches self))))
     (pending_searches self) \<and>
   subseq (pending_searches (callback_m_search_ok address packet self)) (pending_searches self)"
proof -
  have "filter (\<lambda>t. \<not> search_matches address packet t \<and>
               search_future t \<notin> set (map search_future
                 (filter (search_matches address packet) (pending_searches self))))
     (pending_searches (callback_m_search_ok address packet self)) =
   filter (\<lambda>t. \<not> search_matches address packet t \<and>
               search_future t \<notin> set (map search_future
                 (filter (search_matches address packet) (pending_searches self))))
     (pending_searches self)"
    by (rule callback_pending_filter) auto
  with callback_pending_subseq(1)[of address packet self] show ?thesis by blast
qed

theorem unmatched_searches_keep_their_order_witness:
  "filter (\<lambda>t. \<not> search_matches gateway (ok_reply ''urn:b'') t \<and>
               search_future t \<notin> set (map search_future
                 (filter (search_matches gateway (ok_reply ''urn:b''))
                    (pending_searches two_searches))))
     (pending_searches (callback_m_search_ok gateway (ok_reply ''urn:b'') two_searches)) =
   [(gateway, ''urn:a'', 0, 0)]"
proof -
  have "filter (\<lambda>t. \<not> search_matches gateway (ok_reply ''urn:b'') t \<and>
               search_future t \<notin> set (map search_future
                 (filter (search_matches gateway (ok_reply ''urn:b''))
                    (pending_searches two_searches))))
     (pending_searches two_searches) = [(gateway, ''urn:a'', 0, 0)]"
    by code_simp
  with unmatched_searches_keep_their_order[of gateway "ok_reply ''urn:b''" two_searches]
  show ?thesis by simp
qed


section \<open>The claims about futures, timers and registration\<close>

text \<open>
  Claim C6: a result slot is resolved at most once. No sequence of timer firings and
  received datagrams changes a future that is done; when a timer of the slot and a
  matching reply race, the one serviced first decides (the timer cancels, the reply
  finishes) and whatever follows, the loser included, leaves the slot as it is. A future
  holds one state, so it never holds a result and a cancellation together.
\<close>

theorem future_resolved_at_most_once:
  "(future_done f self \<longrightarrow> futures (run_events es self) f = futures self f) \<and>
   (futures self f = PENDING \<and> \<not> handle_cancelled self h \<and> handle_callback self h = f \<longrightarrow>
      futures (fire_handle h self) f = CANCELLED \<and>
      futures (run_events (TimerFired h # es) self) f = CANCELLED) \<and>
   (futures self f = PENDING \<and> t \<in> set (pending_searches self) \<and> search_future t = f \<and>
    search_matches (fst addr) packet t \<and> fst addr \<noteq> lan_address self \<and>
    packet_type packet = OK \<longrightarrow>
      futures (datagram_received (Some packet) addr self) f = FINISHED packet \<and>
      futures (run_events (DatagramReceived (Some packet) addr # es) self) f = FINISHED packet)"
proof (intro conjI impI)
  assume "future_done f self"
  then show "futures (run_events es self) f = futures self f"
    by (simp add: future_done_def run_events_keeps_done)
next
  assume a: "futures self f = PENDING \<and> \<not> handle_cancelled self h \<and> handle_callback self h = f"
  then show c: "futures (fire_handle h self) f = CANCELLED"
    by (simp add: fire_handle_futures)
  then have "futures (run_events es (fire_handle h self)) f = futures (fire_handle h self) f"
    by (intro run_events_keeps_done) simp
  with c show "futures (run_events (TimerFired h # es) self) f = CANCELLED"
    by (simp add: run_events_Cons)
next
  assume a: "futures self f = PENDING \<and> t \<in> set (pending_searches self) \<and> search_future t = f \<and>
    search_matches (fst addr) packet t \<and> fst addr \<noteq> lan_address self \<and>
    packet_type packet = OK"
  then have "\<exists>t \<in> set (pending_searches self).
      search_matches (fst addr) packet t \<and> search_future t = f"
    by blast
  with a show c: "futures (datagram_received (Some packet) addr self) f = FINISHED packet"
    by (simp add: datagram_received_futures)
  then have "futures (run_events es (datagram_received (Some packet) addr self)) f =
      futures (datagram_received (Some packet) addr self) f"
    by (intro run_events_keeps_done) simp
  with c show "futures (run_events (DatagramReceived (Some packet) addr # es) self) f =
      FINISHED packet"
    by (simp add: run_events_Cons)
qed

theorem future_resolved_at_most_once_witness:
  "future_done 0 stale_batch \<and>
   futures (run_events [DatagramReceived (Some (ok_reply ''urn:a'')) (gateway, 1900), TimerFired 1]
              stale_batch) 0 = futures stale_batch 0 \<and>
   futures batch_search 0 = PENDING \<and> \<not> handle_cancelled batch_search 0 \<and>
   handle_callback batch_search 0 = 0 \<and>
   (gateway, ''urn:a'', 0, 0) \<in> set (pending_searches batch_search) \<and>
   search_matches (fst (gateway, 1900::nat)) (ok_reply ''urn:a'') (gateway, ''urn:a'', 0, 0) \<and>
   fst (gateway, 1900::nat) \<noteq> lan_address batch_search \<and>
   packet_type (ok_reply ''urn:a'') = OK \<and>
   futures (run_events [TimerFired 0,
              DatagramReceived (Some (ok_reply ''urn:a'')) (gateway, 1900), TimerFired 1]
              batch_search) 0 = CANCELLED \<and>
   futures (run_events [DatagramReceived (Some (ok_reply ''urn:a'')) (gateway, 1900),
              TimerFired 0, TimerFired 1]
              batch_search) 0 = FINISHED (ok_reply ''urn:a'')"
proof -
  have d: "future_done 0 stale_batch"
    by code_simp
  have p: "futures batch_search 0 = PENDING"
    by code_simp
  have h: "\<not> handle_cancelled batch_search 0" "handle_callback batch_search 0 = 0"
    by code_simp+
  have t: "(gateway, ''urn:a'', 0, 0) \<in> set (pending_searches batch_search)"
    "search_future (gateway, ''urn:a'', 0::nat, 0::nat) = 0"
    "search_matches (fst (gateway, 1900::nat)) (ok_reply ''urn:a'') (gateway, ''urn:a'', 0, 0)"
    "fst (gateway, 1900::nat) \<noteq> lan_address batch_search"
    "packet_type (ok_reply ''urn:a'') = OK"
    by code_simp+
  from d future_resolved_at_most_once[of 0 stale_batch
      "[DatagramReceived (Some (ok_reply ''urn:a'')) (gateway, 1900), TimerFired 1]"]
  have a: "futures (run_events
      [DatagramReceived (Some (ok_reply ''urn:a'')) (gateway, 1900), TimerFired 1]
      stale_batch) 0 = futures stale_batch 0"
    by blast
  from p h future_resolved_at_most_once[of 0 batch_search
      "[DatagramReceived (Some (ok_reply ''urn:a'')) (gateway, 1900), TimerFired 1]" 0]
  have b: "futures (run_events [TimerFired 0,
              DatagramReceived (Some (ok_reply ''urn:a'')) (gateway, 1900), TimerFired 1]
              batch_search) 0 = CANCELLED"
    by blast
  from p t future_resolved_at_most_once[of 0 batch_search "[TimerFired 0, TimerFired 1]" 0
      "(gateway, ''urn:a'', 0, 0)" "(gateway, 1900)" "ok_reply ''urn:a''"]
  have c: "futures (run_events [DatagramReceived (Some (ok_reply ''urn:a'')) (gateway, 1900),
              TimerFired 0, TimerFired 1]
              batch_search) 0 = FINISHED (ok_reply ''urn:a'')"
    by blast
  from d p h t a b c show ?thesis by simp
qed

lemma start_m_search_null:
  assumes "\<exists>d \<in> set datagrams. arg_st d = None"
  shows "fst (start_m_search address timeout datagrams self) = Inl AssertionError"
    and "sent (snd (start_m_search address timeout datagrams self)) = sent self"
proof -
  let ?self0 = "snd (new_future self)"
  let ?r = "register_searches address timeout (next_future self) datagrams [] ?self0"
  have r: "fst ?r = Inl AssertionError" "sent (snd ?r) = sent ?self0"
    using register_searches_null[OF assms, of address timeout "next_future self" "[]" ?self0]
    by simp_all
  have s0: "sent ?self0 = sent self" by (simp add: new_future_def)
  obtain e s1 where e: "?r = (e, s1)" by (cases ?r)
  with r have "e = Inl AssertionError" "sent s1 = sent ?self0" by simp_all
  with e s0 show "fst (start_m_search address timeout datagrams self) = Inl AssertionError"
    and "sent (snd (start_m_search address timeout datagrams self)) = sent self"
    by (simp_all add: start_m_search_def new_future_def)
qed

lemma SSDPProtocol_m_search_null:
  assumes "\<exists>d \<in> set datagrams. arg_st d = None"
  shows "fst (SSDPProtocol_m_search inbound address timeout datagrams self) =
           Some (Inl AssertionError)"
    and "sent (snd (SSDPProtocol_m_search inbound address timeout datagrams self)) = sent self"
proof -
  obtain r s1 where r: "start_m_search address timeout datagrams self = (r, s1)"
    by (cases "start_m_search address timeout datagrams self")
  with start_m_search_null[OF assms, of address timeout self]
  have "r = Inl AssertionError" "sent s1 = sent self" by simp_all
  with r show "fst (SSDPProtocol_m_search inbound address timeout datagrams self) =
           Some (Inl AssertionError)"
    and "sent (snd (SSDPProtocol_m_search inbound address timeout datagrams self)) = sent self"
    by (simp_all add: SSDPProtocol_m_search_def)
qed

text \<open>
  Claim C8: a call of the engine's search in which some parameter set has no search
  target fails (the assertion raises) before any request datagram is sent: the record of
  \<open>sendto\<close> calls is what it was before the call.
\<close>

theorem null_search_target_fails_before_sending:
  assumes "\<exists>d \<in> set datagrams. arg_st d = None"
  shows "fst (SSDPProtocol_m_search inbound address timeout datagrams self) =
           Some (Inl AssertionError) \<and>
         sent (snd (SSDPProtocol_m_search inbound address timeout datagrams self)) = sent self"
  using SSDPProtocol_m_search_null[OF assms] by simp

theorem null_search_target_fails_before_sending_witness:
  "(\<exists>d \<in> set [args_for ''urn:a'', null_args]. arg_st d = None) \<and>
   fst (SSDPProtocol_m_search [(Some (ok_reply ''urn:a''), gateway, 1900)] gateway 1
          [args_for ''urn:a'', null_args] (SSDPProtocol SSDP_IP_ADDRESS lan)) =
     Some (Inl AssertionError) \<and>
   sent (snd (SSDPProtocol_m_search [(Some (ok_reply ''urn:a''), gateway, 1900)] gateway 1
          [args_for ''urn:a'', null_args] (SSDPProtocol SSDP_IP_ADDRESS lan))) =
     sent (SSDPProtocol SSDP_IP_ADDRESS lan)"
proof -
  have h: "\<exists>d \<in> set [args_for ''urn:a'', null_args]. arg_st d = None"
    by code_simp
  from null_search_target_fails_before_sending[OF h] h show ?thesis
    by blast
qed


section \<open>A search with at least one registered request always wakes its caller\<close>

lemma callback_pending_subset:
  "set (pending_searches (callback_m_search_ok address packet self)) \<subseteq>
   set (pending_searches self)"
proof
  fix t
  assume "t \<in> set (pending_searches (callback_m_search_ok address packet self))"
  with callback_pending_subseq(1)[of address packet self]
  obtain u where "u \<in> set (pending_searches self)" "t = u"
    by (rule list_emb_set)
  then show "t \<in> set (pending_searches self)" by simp
qed

text \<open>
  Two facts are kept by every received datagram: each record's handle runs the
  cancellation of the record's own future, and the awaited future is either done or has a
  timer in the queue that is not cancelled.
\<close>

lemma datagram_received_keeps_timer:
  assumes W: "\<forall>t \<in> set (pending_searches s). handle_callback s (search_handle t) = search_future t"
    and I: "futures s f \<noteq> PENDING \<or>
            (\<exists>h \<in> set (scheduled s). \<not> handle_cancelled s h \<and> handle_callback s h = f)"
  shows "(\<forall>t \<in> set (pending_searches (datagram_received data addr s)).
            handle_callback (datagram_received data addr s) (search_handle t) = search_future t) \<and>
         (futures (datagram_received data addr s) f \<noteq> PENDING \<or>
            (\<exists>h \<in> set (scheduled (datagram_received data addr s)).
               \<not> handle_cancelled (datagram_received data addr s) h \<and>
               handle_callback (datagram_received data addr s) h = f))"
proof (cases "fst addr \<noteq> lan_address s \<and> (\<exists>packet. data = Some packet \<and> packet_type packet = OK)")
  case False
  then have "datagram_received data addr s = s"
    by (cases data) (auto simp add: datagram_received_def decode_def)
  with W I show ?thesis by simp
next
  case True
  then obtain packet where p: "data = Some packet" "packet_type packet = OK"
      "fst addr \<noteq> lan_address s"
    by blast
  let ?s' = "callback_m_search_ok (fst addr) packet s"
  have eq: "datagram_received data addr s = ?s'"
    using p by (simp add: datagram_received_def decode_def)
  have W': "\<forall>t \<in> set (pending_searches ?s'). handle_callback ?s' (search_handle t) = search_future t"
    using W callback_pending_subset[of "fst addr" packet s] by (auto simp add: callback_frame)
  have I': "futures ?s' f \<noteq> PENDING \<or>
      (\<exists>h \<in> set (scheduled ?s'). \<not> handle_cancelled ?s' h \<and> handle_callback ?s' h = f)"
  proof (cases "futures s f = PENDING")
    case False
    then show ?thesis by (simp add: callback_futures)
  next
    case True
    with I obtain h where h: "h \<in> set (scheduled s)" "\<not> handle_cancelled s h"
        "handle_callback s h = f"
      by blast
    show ?thesis
    proof (cases "\<exists>t \<in> set (pending_searches s).
        search_matches (fst addr) packet t \<and> search_handle t = h")
      case True
      then obtain t where t: "t \<in> set (pending_searches s)" "search_matches (fst addr) packet t"
          "search_handle t = h"
        by blast
      with W h(3) have "search_future t = f" by auto
      with t \<open>futures s f = PENDING\<close> have "futures ?s' f = FINISHED packet"
        by (auto simp add: callback_futures)
      then show ?thesis by simp
    next
      case False
      with h(2) have "\<not> handle_cancelled ?s' h"
        by (simp add: callback_handle_cancelled)
      with h(1,3) show ?thesis by (auto simp add: callback_frame)
    qed
  qed
  from W' I' eq show ?thesis by simp
qed

lemma deliveries_keep_timer:
  assumes "\<forall>t \<in> set (pending_searches s). handle_callback s (search_handle t) = search_future t"
    and "futures s f \<noteq> PENDING \<or>
            (\<exists>h \<in> set (scheduled s). \<not> handle_cancelled s h \<and> handle_callback s h = f)"
  shows "futures (foldl (\<lambda>s (data, addr). datagram_received data addr s) s inbound) f \<noteq> PENDING \<or>
         (\<exists>h \<in> set (scheduled (foldl (\<lambda>s (data, addr). datagram_received data addr s) s inbound)).
            \<not> handle_cancelled (foldl (\<lambda>s (data, addr). datagram_received data addr s) s inbound) h \<and>
            handle_callback (foldl (\<lambda>s (data, addr). datagram_received data addr s) s inbound) h = f)"
  using assms
proof (induction inbound arbitrary: s)
  case Nil
  then show ?case by simp
next
  case (Cons x xs)
  obtain data addr where x: "x = (data, addr)" by (cases x)
  from datagram_received_keeps_timer[OF Cons.prems, of data addr]
  show ?case
    unfolding x foldl_Cons prod.case
    by (intro Cons.IH) blast+
qed

lemma fire_handles_frame:
  "handle_cancelled (foldl (\<lambda>s h. fire_handle h s) s hs) = handle_cancelled s \<and>
   handle_callback (foldl (\<lambda>s h. fire_handle h s) s hs) = handle_callback s"
  by (induction hs arbitrary: s) (simp_all add: fire_handle_def future_cancel_def)

lemma fire_handles_done:
  assumes "futures s f \<noteq> PENDING \<or>
      (\<exists>h \<in> set hs. \<not> handle_cancelled s h \<and> handle_callback s h = f)"
  shows "futures (foldl (\<lambda>s h. fire_handle h s) s hs) f \<noteq> PENDING"
  using assms
proof (induction hs arbitrary: s)
  case Nil
  then show ?case by simp
next
  case (Cons h hs)
  have frame: "handle_cancelled (fire_handle h s) = handle_cancelled s"
      "handle_callback (fire_handle h s) = handle_callback s"
    by (simp_all add: fire_handle_def future_cancel_def)
  have "futures (fire_handle h s) f \<noteq> PENDING \<or>
      (\<exists>h' \<in> set hs. \<not> handle_cancelled (fire_handle h s) h' \<and>
          handle_callback (fire_handle h s) h' = f)"
    using Cons.prems unfolding frame by (auto simp add: fire_handle_futures)
  from Cons.IH[OF this] show ?case by simp
qed

lemma run_timers_done:
  assumes "futures s f \<noteq> PENDING \<or>
      (\<exists>h \<in> set (scheduled s). \<not> handle_cancelled s h \<and> handle_callback s h = f)"
  shows "futures (run_timers s) f \<noteq> PENDING"
  unfolding run_timers_def
  by (rule fire_handles_done) (use assms in simp)

lemma await_future_wakes:
  assumes "\<forall>t \<in> set (pending_searches s). handle_callback s (search_handle t) = search_future t"
    and "futures s f \<noteq> PENDING \<or>
            (\<exists>h \<in> set (scheduled s). \<not> handle_cancelled s h \<and> handle_callback s h = f)"
  shows "(\<exists>packet. fst (await_future inbound f s) = Some (Inr packet)) \<or>
         fst (await_future inbound f s) = Some (Inl CancelledError)"
proof -
  let ?s1 = "foldl (\<lambda>s (data, addr). datagram_received data addr s) s inbound"
  have "futures (run_timers ?s1) f \<noteq> PENDING"
    by (rule run_timers_done) (rule deliveries_keep_timer[OF assms])
  then show ?thesis
    by (cases "futures (run_timers ?s1) f") (simp_all add: await_future_def Let_def)
qed

text \<open>A search of one parameter set on a protocol that was just created.\<close>

lemma fresh_single_search:
  "(arg_st d = None \<longrightarrow>
      fst (SSDPProtocol_m_search inbound address timeout [d] (SSDPProtocol mcast lan_addr)) =
        Some (Inl AssertionError)) \<and>
   (arg_st d \<noteq> None \<longrightarrow>
      (\<exists>packet. fst (SSDPProtocol_m_search inbound address timeout [d] (SSDPProtocol mcast lan_addr)) =
         Some (Inr packet)) \<or>
      fst (SSDPProtocol_m_search inbound address timeout [d] (SSDPProtocol mcast lan_addr)) =
        Some (Inl CancelledError))"
proof (cases "arg_st d")
  case None
  then show ?thesis
    by (simp add: SSDPProtocol_m_search_def start_m_search_def new_future_def SSDPDatagram_def)
next
  case (Some s)
  define s1 where "s1 = snd (start_m_search address timeout [d] (SSDPProtocol mcast lan_addr))"
  have start: "start_m_search address timeout [d] (SSDPProtocol mcast lan_addr) = (Inr 0, s1)"
    unfolding s1_def using Some
    by (simp add: start_m_search_def new_future_def SSDPDatagram_def call_later_def SSDPProtocol_def)
  have facts: "pending_searches s1 = [(address, s, 0, 0)]" "futures s1 0 = PENDING"
      "scheduled s1 = [0]" "\<not> handle_cancelled s1 0" "handle_callback s1 0 = 0"
    unfolding s1_def using Some
    by (simp_all add: start_m_search_def new_future_def SSDPDatagram_def call_later_def
          SSDPProtocol_def)
  have "(\<exists>packet. fst (await_future inbound 0 s1) = Some (Inr packet)) \<or>
         fst (await_future inbound 0 s1) = Some (Inl CancelledError)"
    by (rule await_future_wakes) (simp_all add: facts)
  with start Some show ?thesis
    by (simp add: SSDPProtocol_m_search_def)
qed



section \<open>The module-level search\<close>

declare str_nat.simps [simp del]

lemma str_nat_SSDP_PORT: "str_nat SSDP_PORT = ''1900''"
  by code_simp

lemma timed_out_message_eq:
  "timed_out_message gateway_address = ''M-SEARCH for '' @ gateway_address @ '':1900 timed out''"
  by (simp add: timed_out_message_def str_nat_SSDP_PORT)

lemmas eval_defs =
  m_search_def listen_ssdp_def answering_env_def silent_env_def flaky_env_def world0_def
  await_m_search_def SSDPProtocol_m_search_def start_m_search_def new_future_def
  SSDPProtocol_def args_for_def null_args_def SSDPDatagram_def call_later_def await_future_def
  datagram_received_def decode_def ok_reply_def gateway_def lan_def callback_m_search_ok_def
  drain_pending.simps restore_pending.simps handle_cancel_def future_done_def set_result_def
  run_timers_def fire_handle_def future_cancel_def transport_close_def Let_def SSDP_PORT_def
  SSDP_IP_ADDRESS_def fuzzy_m_search_def fuzzy_m_search_batches_def fuzzy_batches.simps
  timed_out_message_eq

text \<open>
  With a transport set up, \<open>m_search\<close> always returns or raises, closes the transport it
  acquired exactly once, and turns the engine's outcome into its own: a reply is returned,
  a cancellation becomes the timed-out error, the assertion error passes through.
\<close>

lemma m_search_with_transport:
  assumes "setup_result env (listen_calls w) = SetupOk"
  shows "snd (m_search env lan_addr gw d timeout sock w) =
           w\<lparr>listen_calls := Suc (listen_calls w), transports := Suc (transports w),
             close_calls := close_calls w @ [transports w],
             searches := searches w @ [(transports w, gw, timeout, [d])]\<rparr>"
    and "fst (m_search env lan_addr gw d timeout sock w) =
           (case fst (SSDPProtocol_m_search (arrivals env (length (searches w))) gw timeout [d]
                        (SSDPProtocol SSDP_IP_ADDRESS lan_addr)) of
              Some (Inr packet) \<Rightarrow> Some (Inr packet)
            | Some (Inl e) \<Rightarrow>
                if e = CancelledError then Some (Inl (UPnPError (timed_out_message gw)))
                else Some (Inl e)
            | None \<Rightarrow> None)"
proof -
  let ?R = "SSDPProtocol_m_search (arrivals env (length (searches w))) gw timeout [d]
              (SSDPProtocol SSDP_IP_ADDRESS lan_addr)"
  obtain r p where R: "?R = (r, p)" by (cases ?R)
  from fresh_single_search[of d "arrivals env (length (searches w))" gw timeout
      SSDP_IP_ADDRESS lan_addr] R
  consider (assert) "r = Some (Inl AssertionError)"
    | (reply) packet where "r = Some (Inr packet)"
    | (cancel) "r = Some (Inl CancelledError)"
    by (cases "arg_st d") auto
  then show "snd (m_search env lan_addr gw d timeout sock w) =
           w\<lparr>listen_calls := Suc (listen_calls w), transports := Suc (transports w),
             close_calls := close_calls w @ [transports w],
             searches := searches w @ [(transports w, gw, timeout, [d])]\<rparr>"
    and "fst (m_search env lan_addr gw d timeout sock w) =
           (case fst ?R of
              Some (Inr packet) \<Rightarrow> Some (Inr packet)
            | Some (Inl e) \<Rightarrow>
                if e = CancelledError then Some (Inl (UPnPError (timed_out_message gw)))
                else Some (Inl e)
            | None \<Rightarrow> None)"
    using assms R
    by (cases; simp add: m_search_def listen_ssdp_def await_m_search_def transport_close_def
          Let_def)+
qed

lemma m_search_without_transport:
  "setup_result env (listen_calls w) = EndpointError err \<Longrightarrow>
   m_search env lan_addr gw d timeout sock w =
     (Some (Inl (UPnPError err)), w\<lparr>listen_calls := Suc (listen_calls w)\<rparr>)"
  "setup_result env (listen_calls w) = JoinError err \<Longrightarrow>
   m_search env lan_addr gw d timeout sock w =
     (Some (Inl (UPnPError err)),
      w\<lparr>listen_calls := Suc (listen_calls w), transports := Suc (transports w),
        close_calls := close_calls w @ [transports w]\<rparr>)"
  by (simp_all add: m_search_def listen_ssdp_def transport_close_def Let_def)

lemma m_search_outcome:
  "arg_st d \<noteq> None \<Longrightarrow>
   (\<exists>packet. fst (m_search env lan_addr gw d timeout sock w) = Some (Inr packet)) \<or>
   (\<exists>msg. fst (m_search env lan_addr gw d timeout sock w) = Some (Inl (UPnPError msg)))"
proof (cases "setup_result env (listen_calls w)")
  case SetupOk
  assume "arg_st d \<noteq> None"
  with fresh_single_search[of d "arrivals env (length (searches w))" gw timeout
      SSDP_IP_ADDRESS lan_addr]
  show ?thesis
    by (auto simp add: m_search_with_transport(2)[OF SetupOk])
next
  case (EndpointError err)
  then show ?thesis by (simp add: m_search_without_transport)
next
  case (JoinError err)
  then show ?thesis by (simp add: m_search_without_transport)
qed



section \<open>The batch phase of fuzzy discovery\<close>

text \<open>
  Claim C2: every invocation of \<open>m_search\<close> and of \<open>fuzzy_m_search\<close> closes the transport
  it acquired exactly once before it returns or raises. For \<open>m_search\<close> this holds:
  \<open>m_search_with_transport\<close> and \<open>m_search_without_transport\<close> above show one \<open>close()\<close>
  on the transport of the call on every path. For \<open>fuzzy_m_search\<close> it fails:
  \<open>_fuzzy_m_search\<close> acquires a transport and has no call of \<open>close()\<close>. In the run below
  the gateway answers; two transports are created, number 0 by the batch phase and number 1
  by the search that confirms the first candidate, and \<open>close()\<close> is called once, on
  number 1.
\<close>

theorem fuzzy_m_search_leaves_batch_transport_open:
  "fuzzy_m_search (answering_env ''urn:a'') [args_for ''urn:a'', args_for ''urn:b''] lan gateway
     30 None world0 =
   (Some (Inr (args_for ''urn:a'', ok_reply ''urn:a'')),
    \<lparr>listen_calls = 2, transports = 2, close_calls = [1],
     searches = [(0, gateway, 15, [args_for ''urn:a'', args_for ''urn:b'']),
                 (1, gateway, 3, [args_for ''urn:a''])]\<rparr>)"
  by (simp add: eval_defs)


section \<open>What the batch phase asks of the engine\<close>

lemma register_searches_error:
  "fst (register_searches address timeout fut datagrams packets self) = Inl e \<Longrightarrow>
   e = AssertionError"
proof (induction datagrams arbitrary: packets self)
  case Nil
  then show ?case by simp
next
  case (Cons d ds)
  show ?case
  proof (cases "arg_st d")
    case None
    with Cons.prems show ?thesis by (simp add: SSDPDatagram_def)
  next
    case (Some s)
    with Cons.prems Cons.IH show ?thesis
      by (simp add: SSDPDatagram_def call_later_def)
  qed
qed

lemma SSDPProtocol_m_search_error:
  assumes "fst (SSDPProtocol_m_search inbound address timeout datagrams self) = Some (Inl e)"
  shows "e = AssertionError \<or> e = CancelledError"
proof -
  obtain r s1 where r: "start_m_search address timeout datagrams self = (r, s1)"
    by (cases "start_m_search address timeout datagrams self")
  show ?thesis
  proof (cases r)
    case (Inl e')
    obtain q s0 where q: "register_searches address timeout (next_future self) datagrams []
        (snd (new_future self)) = (q, s0)"
      by (cases "register_searches address timeout (next_future self) datagrams []
        (snd (new_future self))")
    with r Inl have "q = Inl e'"
      by (cases q) (simp_all add: start_m_search_def new_future_def)
    with q register_searches_error[of address timeout "next_future self" datagrams "[]"
        "snd (new_future self)" e']
    have "e' = AssertionError" by simp
    with assms r Inl show ?thesis by (simp add: SSDPProtocol_m_search_def)
  next
    case (Inr fut)
    with assms r show ?thesis
      by (simp add: SSDPProtocol_m_search_def await_future_def Let_def
            split: future_state.splits)
  qed
qed

lemma await_m_search_world:
  "snd (snd (await_m_search env transport protocol address timeout datagrams w)) =
     w\<lparr>searches := searches w @ [(transport, address, timeout, datagrams)]\<rparr>"
  "fst (await_m_search env transport protocol address timeout datagrams w) =
     fst (SSDPProtocol_m_search (arrivals env (length (searches w))) address timeout datagrams
            protocol)"
  by (simp_all add: await_m_search_def split: prod.split)

declare fuzzy_batches.simps [simp del]

text \<open>
  The loop asks for the batches of two in order, each with the same timeout, and touches
  nothing else in the world; it ends with the timed-out error only after the last batch.
\<close>

lemma fuzzy_batches_log:
  "\<exists>k. k \<le> (length args + 1) div 2 \<and>
       snd (snd (fuzzy_batches env transport gw batch_timeout args protocol w)) =
         w\<lparr>searches := searches w @
             map (\<lambda>i. (transport, gw, batch_timeout, take 2 (drop (2 * i) args))) [0..<k]\<rparr> \<and>
       (fst (fuzzy_batches env transport gw batch_timeout args protocol w) =
          Some (Inl (UPnPError (timed_out_message gw))) \<longrightarrow> k = (length args + 1) div 2)"
proof (induction args arbitrary: protocol w rule: length_induct)
  case (1 args)
  show ?case
  proof (cases "args = []")
    case True
    then show ?thesis
      by (subst (1 2) fuzzy_batches.simps) simp
  next
    case False
    let ?A = "await_m_search env transport protocol gw batch_timeout (take 2 args) w"
    obtain r p' w' where A: "?A = (r, p', w')" by (cases ?A)
    have w': "w' = w\<lparr>searches := searches w @ [(transport, gw, batch_timeout, take 2 args)]\<rparr>"
      using await_m_search_world(1)[of env transport protocol gw batch_timeout "take 2 args" w] A
      by simp
    have one: "(1::nat) \<le> (length args + 1) div 2"
      using False by (cases args) simp_all
    have stop: ?thesis
      if "fuzzy_batches env transport gw batch_timeout args protocol w = (r', p', w')"
        and "r' \<noteq> Some (Inl (UPnPError (timed_out_message gw)))" for r'
      using that one w' by (intro exI[of _ 1]) simp
    have unfold: "fuzzy_batches env transport gw batch_timeout args protocol w =
        (case r of
           None \<Rightarrow> (None, p', w')
         | Some (Inr packet) \<Rightarrow> (Some (Inr (take 2 args)), p', w')
         | Some (Inl e) \<Rightarrow>
             if e = TimeoutError \<or> e = CancelledError
             then fuzzy_batches env transport gw batch_timeout (drop 2 args) p' w'
             else (Some (Inl e), p', w'))"
      using False A
      by (subst fuzzy_batches.simps) (simp add: Let_def split: option.split sum.split)
    show ?thesis
    proof (cases r)
      case None
      with unfold show ?thesis by (intro stop[of None]) simp_all
    next
      case (Some x)
      show ?thesis
      proof (cases x)
        case (Inr packet)
        with Some unfold show ?thesis by (intro stop[of "Some (Inr (take 2 args))"]) simp_all
      next
        case (Inl e)
        have "fst ?A = Some (Inl e)" using A Some Inl by simp
        then have "e = AssertionError \<or> e = CancelledError"
          unfolding await_m_search_world(2) by (rule SSDPProtocol_m_search_error)
        then show ?thesis
        proof
          assume "e = AssertionError"
          with Some Inl unfold show ?thesis
            by (intro stop[of "Some (Inl AssertionError)"]) simp_all
        next
          assume e: "e = CancelledError"
          have less: "length (drop 2 args) < length args"
            using False by (cases args) simp_all
          from 1[rule_format, OF less, of p' w'] obtain k where
            k: "k \<le> (length (drop 2 args) + 1) div 2"
              "snd (snd (fuzzy_batches env transport gw batch_timeout (drop 2 args) p' w')) =
                 w'\<lparr>searches := searches w' @
                   map (\<lambda>i. (transport, gw, batch_timeout, take 2 (drop (2 * i) (drop 2 args))))
                     [0..<k]\<rparr>"
              "fst (fuzzy_batches env transport gw batch_timeout (drop 2 args) p' w') =
                 Some (Inl (UPnPError (timed_out_message gw))) \<longrightarrow>
               k = (length (drop 2 args) + 1) div 2"
            by blast
          have rec: "fuzzy_batches env transport gw batch_timeout args protocol w =
              fuzzy_batches env transport gw batch_timeout (drop 2 args) p' w'"
            using unfold Some Inl e by simp
          have len: "(length (drop 2 args) + 1) div 2 + 1 = (length args + 1) div 2"
            using False by (cases args) auto
          have idx: "map (\<lambda>i. (transport, gw, batch_timeout, take 2 (drop (2 * i) args)))
                [0..<Suc k] =
              (transport, gw, batch_timeout, take 2 args) #
              map (\<lambda>i. (transport, gw, batch_timeout, take 2 (drop (2 * i) (drop 2 args))))
                [0..<k]"
            by (simp add: map_upt_Suc add.commute del: upt_Suc)
          show ?thesis
          proof (intro exI[of _ "Suc k"] conjI)
            show "Suc k \<le> (length args + 1) div 2"
              using k(1) len by simp
            show "snd (snd (fuzzy_batches env transport gw batch_timeout args protocol w)) =
                w\<lparr>searches := searches w @
                  map (\<lambda>i. (transport, gw, batch_timeout, take 2 (drop (2 * i) args)))
                    [0..<Suc k]\<rparr>"
              unfolding rec k(2) idx by (simp add: w')
            show "fst (fuzzy_batches env transport gw batch_timeout args protocol w) =
                Some (Inl (UPnPError (timed_out_message gw))) \<longrightarrow>
              Suc k = (length args + 1) div 2"
              unfolding rec using k(3) len by simp
          qed
        qed
      qed
    qed
  qed
qed

lemma fuzzy_m_search_batches_log:
  assumes "setup_result env (listen_calls w) = SetupOk" and "candidates \<noteq> []"
  shows "\<exists>k. k \<le> (length candidates + 1) div 2 \<and>
       snd (fuzzy_m_search_batches env candidates lan_addr gw timeout sock w) =
         w\<lparr>listen_calls := Suc (listen_calls w), transports := Suc (transports w),
           searches := searches w @
             map (\<lambda>i. (transports w, gw, of_int timeout / of_nat (length candidates),
                        take 2 (drop (2 * i) candidates))) [0..<k]\<rparr> \<and>
       (fst (fuzzy_m_search_batches env candidates lan_addr gw timeout sock w) =
          Some (Inl (UPnPError (timed_out_message gw))) \<longrightarrow>
        k = (length candidates + 1) div 2)"
proof -
  let ?w0 = "w\<lparr>listen_calls := Suc (listen_calls w), transports := Suc (transports w)\<rparr>"
  let ?B = "fuzzy_batches env (transports w) gw (of_int timeout / of_nat (length candidates))
      candidates (SSDPProtocol SSDP_IP_ADDRESS lan_addr) ?w0"
  have eq: "fuzzy_m_search_batches env candidates lan_addr gw timeout sock w =
      (fst ?B, snd (snd ?B))"
    using assms
    by (simp add: fuzzy_m_search_batches_def listen_ssdp_def Let_def split: prod.split)
  from fuzzy_batches_log[of candidates env "transports w" gw
      "of_int timeout / of_nat (length candidates)" "SSDPProtocol SSDP_IP_ADDRESS lan_addr" ?w0]
  show ?thesis unfolding eq by simp
qed

text \<open>On no path does the batch phase call \<open>close()\<close> on the transport it acquired.\<close>

lemma batch_phase_never_closes:
  assumes "setup_result env (listen_calls w) = SetupOk"
  shows "transports (snd (fuzzy_m_search_batches env candidates lan_addr gw timeout sock w)) =
           Suc (transports w) \<and>
         close_calls (snd (fuzzy_m_search_batches env candidates lan_addr gw timeout sock w)) =
           close_calls w"
proof (cases "candidates = []")
  case True
  with assms show ?thesis
    by (simp add: fuzzy_m_search_batches_def listen_ssdp_def Let_def)
next
  case False
  from fuzzy_m_search_batches_log[OF assms False, of lan_addr gw timeout sock]
  show ?thesis by auto
qed





section \<open>The disambiguation phase of fuzzy discovery\<close>

text \<open>A batch that the batch phase returns is not empty and has no null search target.\<close>

lemma fuzzy_batches_viable:
  "fst (fuzzy_batches env transport gw batch_timeout args protocol w) = Some (Inr batch) \<Longrightarrow>
   batch \<noteq> [] \<and> (\<forall>c \<in> set batch. arg_st c \<noteq> None)"
proof (induction args arbitrary: protocol w rule: length_induct)
  case (1 args)
  show ?case
  proof (cases "args = []")
    case True
    with "1.prems" show ?thesis
      by (subst (asm) fuzzy_batches.simps) simp
  next
    case False
    let ?A = "await_m_search env transport protocol gw batch_timeout (take 2 args) w"
    obtain r p' w' where A: "?A = (r, p', w')" by (cases ?A)
    have unfold: "fuzzy_batches env transport gw batch_timeout args protocol w =
        (case r of
           None \<Rightarrow> (None, p', w')
         | Some (Inr packet) \<Rightarrow> (Some (Inr (take 2 args)), p', w')
         | Some (Inl e) \<Rightarrow>
             if e = TimeoutError \<or> e = CancelledError
             then fuzzy_batches env transport gw batch_timeout (drop 2 args) p' w'
             else (Some (Inl e), p', w'))"
      using False A
      by (subst fuzzy_batches.simps) (simp add: Let_def split: option.split sum.split)
    have less: "length (drop 2 args) < length args"
      using False by (cases args) simp_all
    show ?thesis
    proof (cases r)
      case None
      with unfold "1.prems" show ?thesis by simp
    next
      case (Some x)
      show ?thesis
      proof (cases x)
        case (Inr packet)
        with Some unfold "1.prems" have batch: "batch = take 2 args" by simp
        have "fst (SSDPProtocol_m_search (arrivals env (length (searches w))) gw batch_timeout
            (take 2 args) protocol) = Some (Inr packet)"
          using A Some Inr await_m_search_world(2)[of env transport protocol gw batch_timeout
              "take 2 args" w]
          by simp
        then have "fst (SSDPProtocol_m_search (arrivals env (length (searches w))) gw
            batch_timeout (take 2 args) protocol) \<noteq> Some (Inl AssertionError)"
          by simp
        with SSDPProtocol_m_search_null(1)[of "take 2 args"
            "arrivals env (length (searches w))" gw batch_timeout protocol]
        have "\<not> (\<exists>d \<in> set (take 2 args). arg_st d = None)" by blast
        moreover have "take 2 args \<noteq> []" using False by (cases args) simp_all
        ultimately show ?thesis unfolding batch by simp
      next
        case (Inl e)
        show ?thesis
        proof (cases "e = TimeoutError \<or> e = CancelledError")
          case True
          with Some Inl unfold "1.prems"
          have "fst (fuzzy_batches env transport gw batch_timeout (drop 2 args) p' w') =
              Some (Inr batch)"
            by simp
          with "1.IH" less show ?thesis by blast
        next
          case False
          with Some Inl unfold "1.prems" show ?thesis by simp
        qed
      qed
    qed
  qed
qed

lemma fuzzy_m_search_batches_viable:
  assumes "fst (fuzzy_m_search_batches env candidates lan_addr gw timeout sock w) =
      Some (Inr batch)"
  shows "batch \<noteq> [] \<and> (\<forall>c \<in> set batch. arg_st c \<noteq> None)"
proof (cases "setup_result env (listen_calls w) = SetupOk \<and> candidates \<noteq> []")
  case True
  let ?w0 = "w\<lparr>listen_calls := Suc (listen_calls w), transports := Suc (transports w)\<rparr>"
  let ?B = "fuzzy_batches env (transports w) gw (of_int timeout / of_nat (length candidates))
      candidates (SSDPProtocol SSDP_IP_ADDRESS lan_addr) ?w0"
  have "fuzzy_m_search_batches env candidates lan_addr gw timeout sock w =
      (fst ?B, snd (snd ?B))"
    using True
    by (simp add: fuzzy_m_search_batches_def listen_ssdp_def Let_def split: prod.split)
  with assms have "fst ?B = Some (Inr batch)" by simp
  then show ?thesis by (rule fuzzy_batches_viable)
next
  case False
  with assms show ?thesis
    by (cases "setup_result env (listen_calls w)")
       (simp_all add: fuzzy_m_search_batches_def listen_ssdp_def Let_def)
qed

text \<open>
  The loop over the batch: the candidates before the \<open>k\<close>-th fail with the domain error,
  each tried in the world its predecessors left; the \<open>k\<close>-th succeeds and is returned with
  its reply, or there is none and the generic failure is raised.
\<close>

lemma try_args_first_success:
  assumes "\<forall>c \<in> set batch. arg_st c \<noteq> None"
  shows "\<exists>k \<le> length batch.
     (\<forall>j < k. \<exists>msg.
        fst (m_search env lan_addr gw (batch ! j) 3 None
               (foldl (\<lambda>w c. snd (m_search env lan_addr gw c 3 None w)) w1 (take j batch))) =
          Some (Inl (UPnPError msg))) \<and>
     (if k < length batch
      then \<exists>packet.
             fst (m_search env lan_addr gw (batch ! k) 3 None
                    (foldl (\<lambda>w c. snd (m_search env lan_addr gw c 3 None w)) w1 (take k batch))) =
               Some (Inr packet) \<and>
             try_args env lan_addr gw batch w1 =
               (Some (Inr (batch ! k, packet)),
                foldl (\<lambda>w c. snd (m_search env lan_addr gw c 3 None w)) w1 (take (Suc k) batch))
      else try_args env lan_addr gw batch w1 =
             (Some (Inl (UPnPError ''failed to discover gateway'')),
              foldl (\<lambda>w c. snd (m_search env lan_addr gw c 3 None w)) w1 batch))"
  using assms
proof (induction batch arbitrary: w1)
  case Nil
  show ?case by simp
next
  case (Cons c cs)
  let ?M = "m_search env lan_addr gw c 3 None w1"
  let ?F = "foldl (\<lambda>w c. snd (m_search env lan_addr gw c 3 None w))"
  obtain r w' where M: "?M = (r, w')" by (cases ?M)
  from Cons.prems have "arg_st c \<noteq> None" by simp
  from m_search_outcome[OF this, of env lan_addr gw 3 None w1] M
  consider (reply) packet where "r = Some (Inr packet)"
    | (failed) msg where "r = Some (Inl (UPnPError msg))"
    by auto
  then show ?case
  proof cases
    case reply
    with M show ?thesis
      by (intro exI[of _ 0]) simp
  next
    case failed
    from Cons.prems have "\<forall>c \<in> set cs. arg_st c \<noteq> None" by simp
    from Cons.IH[OF this, of w'] obtain k where
      k: "k \<le> length cs"
        "\<forall>j < k. \<exists>msg. fst (m_search env lan_addr gw (cs ! j) 3 None (?F w' (take j cs))) =
            Some (Inl (UPnPError msg))"
        "if k < length cs
         then \<exists>packet.
                fst (m_search env lan_addr gw (cs ! k) 3 None (?F w' (take k cs))) =
                  Some (Inr packet) \<and>
                try_args env lan_addr gw cs w' =
                  (Some (Inr (cs ! k, packet)), ?F w' (take (Suc k) cs))
         else try_args env lan_addr gw cs w' =
                (Some (Inl (UPnPError ''failed to discover gateway'')), ?F w' cs)"
      by blast
    have rec: "try_args env lan_addr gw (c # cs) w1 = try_args env lan_addr gw cs w'"
      using M failed by simp
    have F: "?F w1 (c # xs) = ?F w' xs" for xs
      using M by simp
    have before: "\<exists>msg. fst (m_search env lan_addr gw ((c # cs) ! j) 3 None
          (?F w1 (take j (c # cs)))) = Some (Inl (UPnPError msg))"
      if "j < Suc k" for j
    proof (cases j)
      case 0
      with M failed show ?thesis by simp
    next
      case (Suc j')
      with that have "j' < k" by simp
      with k(2) Suc M show ?thesis by simp
    qed
    show ?thesis
    proof (intro exI[of _ "Suc k"] conjI allI impI)
      show "Suc k \<le> length (c # cs)" using k(1) by simp
      show "\<exists>msg. fst (m_search env lan_addr gw ((c # cs) ! j) 3 None
          (?F w1 (take j (c # cs)))) = Some (Inl (UPnPError msg))"
        if "j < Suc k" for j
        using that by (rule before)
      show "if Suc k < length (c # cs)
        then \<exists>packet.
               fst (m_search env lan_addr gw ((c # cs) ! Suc k) 3 None
                      (?F w1 (take (Suc k) (c # cs)))) = Some (Inr packet) \<and>
               try_args env lan_addr gw (c # cs) w1 =
                 (Some (Inr ((c # cs) ! Suc k, packet)), ?F w1 (take (Suc (Suc k)) (c # cs)))
        else try_args env lan_addr gw (c # cs) w1 =
               (Some (Inl (UPnPError ''failed to discover gateway'')), ?F w1 (c # cs))"
        using k(3) M unfolding rec by simp
    qed
  qed
qed

text \<open>
  Claim C7: once the batch phase has returned a batch, \<open>fuzzy_m_search\<close> runs
  \<open>m_search\<close> with the timeout 3 on the candidates of the batch one at a time in the batch's
  order, each on a transport of its own; the candidates before the first success fail with
  the domain error and are skipped; the first candidate whose search succeeds is returned
  together with its reply, and no later candidate is tried; if none succeeds the error is
  \<open>failed to discover gateway\<close>, which is not the timed-out error.
\<close>

theorem disambiguation_returns_first_confirmed_candidate:
  assumes "fuzzy_m_search_batches env candidates lan_addr gw timeout sock w =
             (Some (Inr batch), w1)"
  shows "(\<exists>k \<le> length batch.
     (\<forall>j < k. \<exists>msg.
        fst (m_search env lan_addr gw (batch ! j) 3 None
               (foldl (\<lambda>w c. snd (m_search env lan_addr gw c 3 None w)) w1 (take j batch))) =
          Some (Inl (UPnPError msg))) \<and>
     (if k < length batch
      then \<exists>packet.
             fst (m_search env lan_addr gw (batch ! k) 3 None
                    (foldl (\<lambda>w c. snd (m_search env lan_addr gw c 3 None w)) w1 (take k batch))) =
               Some (Inr packet) \<and>
             fuzzy_m_search env candidates lan_addr gw timeout sock w =
               (Some (Inr (batch ! k, packet)),
                foldl (\<lambda>w c. snd (m_search env lan_addr gw c 3 None w)) w1 (take (Suc k) batch))
      else fuzzy_m_search env candidates lan_addr gw timeout sock w =
             (Some (Inl (UPnPError ''failed to discover gateway'')),
              foldl (\<lambda>w c. snd (m_search env lan_addr gw c 3 None w)) w1 batch))) \<and>
   ''failed to discover gateway'' \<noteq> timed_out_message gw"
proof -
  from assms have "fst (fuzzy_m_search_batches env candidates lan_addr gw timeout sock w) =
      Some (Inr batch)"
    by simp
  then have viable: "\<forall>c \<in> set batch. arg_st c \<noteq> None"
    using fuzzy_m_search_batches_viable by blast
  have eq: "fuzzy_m_search env candidates lan_addr gw timeout sock w =
      try_args env lan_addr gw batch w1"
    using assms by (simp add: fuzzy_m_search_def)
  have "''failed to discover gateway'' \<noteq> timed_out_message gw"
    by (simp add: timed_out_message_eq)
  with try_args_first_success[OF viable, of env lan_addr gw w1] show ?thesis
    unfolding eq by blast
qed

theorem disambiguation_returns_first_confirmed_candidate_witness:
  "fuzzy_m_search_batches (flaky_env ''urn:b'') [args_for ''urn:a'', args_for ''urn:b''] lan gateway
     30 None world0 =
     (Some (Inr [args_for ''urn:a'', args_for ''urn:b'']),
      \<lparr>listen_calls = 1, transports = 1, close_calls = [],
       searches = [(0, gateway, 15, [args_for ''urn:a'', args_for ''urn:b''])]\<rparr>) \<and>
   fuzzy_m_search (flaky_env ''urn:b'') [args_for ''urn:a'', args_for ''urn:b''] lan gateway
     30 None world0 =
     (Some (Inr (args_for ''urn:b'', ok_reply ''urn:b'')),
      \<lparr>listen_calls = 3, transports = 3, close_calls = [1, 2],
       searches = [(0, gateway, 15, [args_for ''urn:a'', args_for ''urn:b'']),
                   (1, gateway, 3, [args_for ''urn:a'']),
                   (2, gateway, 3, [args_for ''urn:b''])]\<rparr>) \<and>
   ''failed to discover gateway'' \<noteq> timed_out_message gateway"
proof -
  have h: "fuzzy_m_search_batches (flaky_env ''urn:b'') [args_for ''urn:a'', args_for ''urn:b'']
     lan gateway 30 None world0 =
     (Some (Inr [args_for ''urn:a'', args_for ''urn:b'']),
      \<lparr>listen_calls = 1, transports = 1, close_calls = [],
       searches = [(0, gateway, 15, [args_for ''urn:a'', args_for ''urn:b''])]\<rparr>)"
    by (simp add: eval_defs)
  have r: "fuzzy_m_search (flaky_env ''urn:b'') [args_for ''urn:a'', args_for ''urn:b''] lan
     gateway 30 None world0 =
     (Some (Inr (args_for ''urn:b'', ok_reply ''urn:b'')),
      \<lparr>listen_calls = 3, transports = 3, close_calls = [1, 2],
       searches = [(0, gateway, 15, [args_for ''urn:a'', args_for ''urn:b'']),
                   (1, gateway, 3, [args_for ''urn:a'']),
                   (2, gateway, 3, [args_for ''urn:b''])]\<rparr>)"
    by (simp add: eval_defs)
  from disambiguation_returns_first_confirmed_candidate[OF h] h r show ?thesis
    by blast
qed


end
